theory Spec2Isabelle
  imports Main "HOL-Library.Sublist" "HOL-Library.Multiset"
begin

section \<open>Time values of the JavaScript Date object\<close>

text \<open>
  \<^verbatim>\<open>src/js/script.js\<close> computes with \<^verbatim>\<open>Date\<close> objects. A Date holds a time value, the
  number of milliseconds since 1970-01-01T00:00:00Z, or NaN. The functions of this section
  are the abstract operations by which ECMAScript specifies the Date methods the script
  calls (\<^verbatim>\<open>new Date\<close>, \<^verbatim>\<open>getDate\<close>, \<^verbatim>\<open>setDate\<close>, \<^verbatim>\<open>toISOString\<close>); they keep the
  names of the language specification. Time values are integral, so they are modelled as
  \<^typ>\<open>int\<close>, and NaN as \<^term>\<open>None\<close>.
\<close>

definition msPerDay :: int where
  "msPerDay = 86400000"

definition Day :: "int \<Rightarrow> int" where
  "Day t = t div msPerDay"

definition TimeWithinDay :: "int \<Rightarrow> int" where
  "TimeWithinDay t = t mod msPerDay"

definition DaysInYear :: "int \<Rightarrow> int" where
  "DaysInYear y =
     (if y mod 4 \<noteq> 0 then 365
      else if y mod 100 \<noteq> 0 then 366
      else if y mod 400 \<noteq> 0 then 365
      else 366)"

definition DayFromYear :: "int \<Rightarrow> int" where
  "DayFromYear y =
     365 * (y - 1970) + (y - 1969) div 4 - (y - 1901) div 100 + (y - 1601) div 400"

definition TimeFromYear :: "int \<Rightarrow> int" where
  "TimeFromYear y = msPerDay * DayFromYear y"

lemma div_step:
  fixes x k :: int
  assumes k: "0 < k"
  shows "(x + 1) div k = x div k + (if (x + 1) mod k = 0 then 1 else 0)"
proof -
  define q r where "q = x div k" and "r = x mod k"
  have x: "x = k * q + r" by (simp add: q_def r_def)
  have r: "0 \<le> r" "r < k" using k by (simp_all add: r_def)
  show ?thesis
  proof (cases "r + 1 = k")
    case True
    then have e: "x + 1 = k * (q + 1) + 0" using x by (simp add: algebra_simps)
    have "(x + 1) div k = q + 1"
      by (rule int_div_pos_eq [OF e]) (use k in simp_all)
    moreover have "(x + 1) mod k = 0"
      by (rule int_mod_pos_eq [OF e]) (use k in simp_all)
    ultimately show ?thesis by (simp add: q_def)
  next
    case False
    then have lt: "r + 1 < k" using r by simp
    have e: "x + 1 = k * q + (r + 1)" using x by simp
    have "(x + 1) div k = q"
      by (rule int_div_pos_eq [OF e]) (use r lt in simp_all)
    moreover have "(x + 1) mod k = r + 1"
      by (rule int_mod_pos_eq [OF e]) (use r lt in simp_all)
    ultimately show ?thesis using r by (simp add: q_def)
  qed
qed

lemma mod_sub_mult: "((y::int) - k * c) mod k = y mod k"
  using mod_mult_self2 [of y k "- c"] by simp

lemma mod_400_100:
  assumes "(y::int) mod 400 = 0"
  shows "y mod 100 = 0"
proof -
  have "(400::int) dvd y" using assms by (simp add: mod_eq_0_iff_dvd)
  moreover have "(100::int) dvd 400" by simp
  ultimately have "(100::int) dvd y" by (rule dvd_trans [rotated])
  then show ?thesis by (simp add: mod_eq_0_iff_dvd)
qed

lemma mod_100_4:
  assumes "(y::int) mod 100 = 0"
  shows "y mod 4 = 0"
proof -
  have "(100::int) dvd y" using assms by (simp add: mod_eq_0_iff_dvd)
  moreover have "(4::int) dvd 100" by simp
  ultimately have "(4::int) dvd y" by (rule dvd_trans [rotated])
  then show ?thesis by (simp add: mod_eq_0_iff_dvd)
qed

lemma DayFromYear_Suc: "DayFromYear (y + 1) = DayFromYear y + DaysInYear y"
proof -
  have a: "(y + 1 - 1969) div 4 = (y - 1969) div 4 + (if y mod 4 = 0 then 1 else 0)"
    using div_step [of 4 "y - 1969"] mod_sub_mult [of y 4 492] by (simp add: algebra_simps)
  have b: "(y + 1 - 1901) div 100 = (y - 1901) div 100 + (if y mod 100 = 0 then 1 else 0)"
    using div_step [of 100 "y - 1901"] mod_sub_mult [of y 100 19] by (simp add: algebra_simps)
  have c: "(y + 1 - 1601) div 400 = (y - 1601) div 400 + (if y mod 400 = 0 then 1 else 0)"
    using div_step [of 400 "y - 1601"] mod_sub_mult [of y 400 4] by (simp add: algebra_simps)
  show ?thesis
    unfolding DayFromYear_def DaysInYear_def a b c
    using mod_100_4 [of y] mod_400_100 [of y] by auto
qed

lemma DaysInYear_pos: "365 \<le> DaysInYear y"
  by (simp add: DaysInYear_def)

lemma DayFromYear_pred: "DayFromYear (y - 1) < DayFromYear y"
  using DayFromYear_Suc [of "y - 1"] DaysInYear_pos [of "y - 1"] by simp

text \<open>
  \<^verbatim>\<open>YearFromTime(t)\<close> is specified as the largest year \<open>y\<close> with
  \<open>TimeFromYear y \<le> t\<close>. It is computed here by a search from an estimate: first down to
  a year that starts on or before the day, then up to the last such year.
\<close>

function year_down :: "int \<Rightarrow> int \<Rightarrow> int" where
  "year_down n y = (if n < DayFromYear y then year_down n (y - 1) else y)"
  by pat_completeness auto
termination
proof (relation "measure (\<lambda>(n, y). nat (DayFromYear y - n))")
  show "wf (measure (\<lambda>(n, y). nat (DayFromYear y - n)))" by simp
next
  fix n y :: int
  assume "n < DayFromYear y"
  then show "((n, y - 1), (n, y)) \<in> measure (\<lambda>(n, y). nat (DayFromYear y - n))"
    using DayFromYear_pred [of y] by simp
qed

function year_up :: "int \<Rightarrow> int \<Rightarrow> int" where
  "year_up n y = (if DayFromYear (y + 1) \<le> n then year_up n (y + 1) else y)"
  by pat_completeness auto
termination
proof (relation "measure (\<lambda>(n, y). nat (n + 1 - DayFromYear (y + 1)))")
  show "wf (measure (\<lambda>(n, y). nat (n + 1 - DayFromYear (y + 1))))" by simp
next
  fix n y :: int
  assume "DayFromYear (y + 1) \<le> n"
  moreover have "DayFromYear (y + 1) < DayFromYear (y + 1 + 1)"
    using DayFromYear_Suc [of "y + 1"] DaysInYear_pos [of "y + 1"] by linarith
  ultimately show "((n, y + 1), (n, y)) \<in> measure (\<lambda>(n, y). nat (n + 1 - DayFromYear (y + 1)))"
    by simp
qed

definition YearFromTime :: "int \<Rightarrow> int" where
  "YearFromTime t = year_up (Day t) (year_down (Day t) (1970 + Day t div 365))"

definition InLeapYear :: "int \<Rightarrow> int" where
  "InLeapYear t = (if DaysInYear (YearFromTime t) = 366 then 1 else 0)"

definition DayWithinYear :: "int \<Rightarrow> int" where
  "DayWithinYear t = Day t - DayFromYear (YearFromTime t)"

definition MonthFromTime :: "int \<Rightarrow> int" where
  "MonthFromTime t =
     (let d = DayWithinYear t; l = InLeapYear t in
      if d < 31 then 0
      else if d < 59 + l then 1
      else if d < 90 + l then 2
      else if d < 120 + l then 3
      else if d < 151 + l then 4
      else if d < 181 + l then 5
      else if d < 212 + l then 6
      else if d < 243 + l then 7
      else if d < 273 + l then 8
      else if d < 304 + l then 9
      else if d < 334 + l then 10
      else 11)"

definition DateFromTime :: "int \<Rightarrow> int" where
  "DateFromTime t =
     (let d = DayWithinYear t; l = InLeapYear t; m = MonthFromTime t in
      if m = 0 then d + 1
      else if m = 1 then d - 30
      else if m = 2 then d - 58 - l
      else if m = 3 then d - 89 - l
      else if m = 4 then d - 119 - l
      else if m = 5 then d - 150 - l
      else if m = 6 then d - 180 - l
      else if m = 7 then d - 211 - l
      else if m = 8 then d - 242 - l
      else if m = 9 then d - 272 - l
      else if m = 10 then d - 303 - l
      else d - 333 - l)"

text \<open>
  \<^verbatim>\<open>MakeDay(year, month, date)\<close>: the day number of the first of the month, plus
  \<open>date - 1\<close>. \<open>DayFromMonth\<close> is the number of days of the year before month \<open>mn\<close>
  (0 = January), \<open>l\<close> being 1 in a leap year.
\<close>

definition DayFromMonth :: "int \<Rightarrow> int \<Rightarrow> int" where
  "DayFromMonth mn l =
     (if mn = 0 then 0
      else if mn = 1 then 31
      else if mn = 2 then 59 + l
      else if mn = 3 then 90 + l
      else if mn = 4 then 120 + l
      else if mn = 5 then 151 + l
      else if mn = 6 then 181 + l
      else if mn = 7 then 212 + l
      else if mn = 8 then 243 + l
      else if mn = 9 then 273 + l
      else if mn = 10 then 304 + l
      else 334 + l)"

definition MakeDay :: "int \<Rightarrow> int \<Rightarrow> int \<Rightarrow> int" where
  "MakeDay year month date =
     (let ym = year + month div 12; mn = month mod 12 in
      DayFromYear ym + DayFromMonth mn (if DaysInYear ym = 366 then 1 else 0) + date - 1)"

definition MakeDate :: "int \<Rightarrow> int \<Rightarrow> int" where
  "MakeDate day time = day * msPerDay + time"

definition TimeClip :: "int \<Rightarrow> int option" where
  "TimeClip t = (if \<bar>t\<bar> > 8640000000000000 then None else Some t)"


text \<open>
  The host of the script: its local time zone and its date parser. \<open>ltza_utc t\<close> is the
  offset of local time from UTC, in milliseconds, at the UTC time \<open>t\<close>
  (\<^verbatim>\<open>LocalTZA(t, true)\<close>); \<open>ltza_local t\<close> is the offset at the local wall-clock time
  \<open>t\<close> (\<^verbatim>\<open>LocalTZA(t, false)\<close>). \<open>parse_other\<close> is what \<^verbatim>\<open>Date.parse\<close> returns for
  a string that is not a plain calendar date \<^verbatim>\<open>YYYY-MM-DD\<close> (other ISO forms, and the
  formats the language leaves to the implementation); \<^term>\<open>None\<close> is NaN.
\<close>

record host =
  ltza_utc :: "int \<Rightarrow> int"
  ltza_local :: "int \<Rightarrow> int"
  parse_other :: "string \<Rightarrow> int option"

definition LocalTime :: "host \<Rightarrow> int \<Rightarrow> int" where
  "LocalTime env t = t + ltza_utc env t"

definition UTC :: "host \<Rightarrow> int \<Rightarrow> int" where
  "UTC env t = t - ltza_local env t"

section \<open>Values, errors and Date objects\<close>

text \<open>
  The values a \<^verbatim>\<open>date\<close> field of the JSON feed can hold. Numbers are integral here;
  arrays and objects as dates are left out.
\<close>

datatype jsval = JUndefined | JNull | JBool bool | JNum int | JStr string

datatype error = RangeError | TypeError | SyntaxError

type_synonym jsdate = "int option"

fun truthy :: "jsval \<Rightarrow> bool" where
  "truthy JUndefined = False"
| "truthy JNull = False"
| "truthy (JBool b) = b"
| "truthy (JNum n) = (n \<noteq> 0)"
| "truthy (JStr s) = (s \<noteq> [])"

subsection \<open>Parsing a calendar date\<close>

definition digit_val :: "char \<Rightarrow> int option" where
  "digit_val c = map_of (zip ''0123456789'' [0, 1, 2, 3, 4, 5, 6, 7, 8, 9]) c"

fun digits_val :: "string \<Rightarrow> int \<Rightarrow> int option" where
  "digits_val [] acc = Some acc"
| "digits_val (c # cs) acc =
     (case digit_val c of None \<Rightarrow> None | Some v \<Rightarrow> digits_val cs (10 * acc + v))"

definition DaysInMonth :: "int \<Rightarrow> int \<Rightarrow> int" where
  "DaysInMonth y m =
     (if m = 2 then (if DaysInYear y = 366 then 29 else 28)
      else if m = 4 \<or> m = 6 \<or> m = 9 \<or> m = 11 then 30
      else 31)"

definition valid_ymd :: "int \<Rightarrow> int \<Rightarrow> int \<Rightarrow> bool" where
  "valid_ymd y m d = (1 \<le> m \<and> m \<le> 12 \<and> 1 \<le> d \<and> d \<le> DaysInMonth y m)"

definition parse_ymd :: "string \<Rightarrow> (int \<times> int \<times> int) option" where
  "parse_ymd s =
     (if length s = 10 \<and> s ! 4 = CHR ''-'' \<and> s ! 7 = CHR ''-'' then
        (case digits_val (take 4 s) 0 of None \<Rightarrow> None | Some y \<Rightarrow>
        (case digits_val (take 2 (drop 5 s)) 0 of None \<Rightarrow> None | Some m \<Rightarrow>
        (case digits_val (take 2 (drop 8 s)) 0 of None \<Rightarrow> None | Some d \<Rightarrow>
           if valid_ymd y m d then Some (y, m, d) else None)))
      else None)"

text \<open>The shape of a canonical calendar-date string: four digits, a hyphen, two digits, a
  hyphen, two digits.\<close>

definition is_ymd :: "string \<Rightarrow> bool" where
  "is_ymd s =
     (length s = 10 \<and> s ! 4 = CHR ''-'' \<and> s ! 7 = CHR ''-''
      \<and> digits_val (take 4 s) 0 \<noteq> None
      \<and> digits_val (take 2 (drop 5 s)) 0 \<noteq> None
      \<and> digits_val (take 2 (drop 8 s)) 0 \<noteq> None)"

text \<open>
  \<^verbatim>\<open>Date.parse\<close>: a date-only string \<^verbatim>\<open>YYYY-MM-DD\<close> naming a day of the calendar is UTC
  midnight of that day, on every host; any other string is the host's business.
\<close>

definition Date_parse :: "host \<Rightarrow> string \<Rightarrow> int option" where
  "Date_parse env s =
     (case parse_ymd s of
        Some (y, m, d) \<Rightarrow> Some (MakeDate (MakeDay y (m - 1) d) 0)
      | None \<Rightarrow> parse_other env s)"

text \<open>\<^verbatim>\<open>new Date(value)\<close> for a value that is not a Date.\<close>

fun new_Date :: "host \<Rightarrow> jsval \<Rightarrow> jsdate" where
  "new_Date env (JStr s) = (case Date_parse env s of None \<Rightarrow> None | Some t \<Rightarrow> TimeClip t)"
| "new_Date env JUndefined = None"
| "new_Date env JNull = TimeClip 0"
| "new_Date env (JBool b) = TimeClip (if b then 1 else 0)"
| "new_Date env (JNum n) = TimeClip n"

subsection \<open>\<^verbatim>\<open>getDate\<close>, \<^verbatim>\<open>setDate\<close>, \<^verbatim>\<open>toISOString\<close>\<close>

definition getDate :: "host \<Rightarrow> jsdate \<Rightarrow> int option" where
  "getDate env d = (case d of None \<Rightarrow> None | Some t \<Rightarrow> Some (DateFromTime (LocalTime env t)))"

definition setDate :: "host \<Rightarrow> jsdate \<Rightarrow> int option \<Rightarrow> jsdate" where
  "setDate env d dt =
     (case d of None \<Rightarrow> None | Some t \<Rightarrow>
      (case dt of None \<Rightarrow> None | Some n \<Rightarrow>
         (let tl = LocalTime env t;
              newDate = MakeDate (MakeDay (YearFromTime tl) (MonthFromTime tl) n) (TimeWithinDay tl)
          in TimeClip (UTC env newDate))))"

definition digit_char :: "int \<Rightarrow> char" where
  "digit_char n = ''0123456789'' ! nat n"

definition pad2 :: "int \<Rightarrow> string" where
  "pad2 n = [digit_char (n div 10 mod 10), digit_char (n mod 10)]"

definition pad3 :: "int \<Rightarrow> string" where
  "pad3 n = digit_char (n div 100 mod 10) # pad2 n"

definition pad4 :: "int \<Rightarrow> string" where
  "pad4 n = digit_char (n div 1000 mod 10) # pad3 n"

definition pad6 :: "int \<Rightarrow> string" where
  "pad6 n = digit_char (n div 100000 mod 10) # digit_char (n div 10000 mod 10) # pad4 n"

definition year_string :: "int \<Rightarrow> string" where
  "year_string y =
     (if 0 \<le> y \<and> y \<le> 9999 then pad4 y
      else (if y < 0 then ''-'' else ''+'') @ pad6 \<bar>y\<bar>)"

definition HourFromTime :: "int \<Rightarrow> int" where
  "HourFromTime t = (t div 3600000) mod 24"

definition MinFromTime :: "int \<Rightarrow> int" where
  "MinFromTime t = (t div 60000) mod 60"

definition SecFromTime :: "int \<Rightarrow> int" where
  "SecFromTime t = (t div 1000) mod 60"

definition msFromTime :: "int \<Rightarrow> int" where
  "msFromTime t = t mod 1000"

definition toISOString :: "jsdate \<Rightarrow> error + string" where
  "toISOString d =
     (case d of
        None \<Rightarrow> Inl RangeError
      | Some t \<Rightarrow>
          Inr (year_string (YearFromTime t) @ ''-'' @ pad2 (MonthFromTime t + 1) @ ''-''
               @ pad2 (DateFromTime t) @ ''T'' @ pad2 (HourFromTime t) @ '':''
               @ pad2 (MinFromTime t) @ '':'' @ pad2 (SecFromTime t) @ ''.''
               @ pad3 (msFromTime t) @ ''Z''))"

section \<open>The script\<close>

subsection \<open>\<^verbatim>\<open>formatDate\<close> and \<^verbatim>\<open>nineDatesFrom\<close>\<close>

text \<open>
  \<^verbatim>\<open>formatDate\<close> takes a Date object as it is and makes one of anything else;
  \<^verbatim>\<open>toISOString\<close> throws a RangeError on an invalid Date, \<^verbatim>\<open>slice(0, 10)\<close> keeps the
  first ten characters.
\<close>

datatype date_arg = DateObj jsdate | Value jsval

definition formatDate :: "host \<Rightarrow> date_arg \<Rightarrow> error + string" where
  "formatDate env x =
     (let d = (case x of DateObj dobj \<Rightarrow> dobj | Value v \<Rightarrow> new_Date env v) in
      case toISOString d of Inl e \<Rightarrow> Inl e | Inr s \<Rightarrow> Inr (take 10 s))"

text \<open>
  The loop of \<^verbatim>\<open>nineDatesFrom\<close>: \<open>d\<close> is a copy of \<open>start\<close>, set to the local day
  of the month of \<open>start\<close> plus \<open>i\<close>, and formatted.
\<close>

function nineDates_loop :: "host \<Rightarrow> jsdate \<Rightarrow> nat \<Rightarrow> string list \<Rightarrow> error + string list" where
  "nineDates_loop env start i arr =
     (if i < 9 then
        (let d = start;
             d = setDate env d (map_option (\<lambda>g. g + int i) (getDate env start))
         in case formatDate env (DateObj d) of
              Inl e \<Rightarrow> Inl e
            | Inr s \<Rightarrow> nineDates_loop env start (i + 1) (arr @ [s]))
      else Inr arr)"
  by pat_completeness auto
termination
  by (relation "measure (\<lambda>(env, start, i, arr). 9 - i)") auto

definition nineDatesFrom :: "host \<Rightarrow> string \<Rightarrow> error + string list" where
  "nineDatesFrom env startIso = nineDates_loop env (new_Date env (JStr startIso)) 0 []"


subsection \<open>The feed and \<^verbatim>\<open>fetchClassFeed\<close>\<close>

text \<open>
  An element of the feed is an object with a \<^verbatim>\<open>date\<close> field and its other fields
  (title, url, explanation, media type), or \<^verbatim>\<open>null\<close>. An element that is a number, a
  string or an array has no \<^verbatim>\<open>date\<close> property and behaves in both functions below as an
  object whose date is undefined.
\<close>

record 'a entry =
  date :: jsval
  rest :: 'a

datatype 'a item = JsonNull | JsonObject "'a entry"

text \<open>
  What the request of \<^verbatim>\<open>fetchClassFeed\<close> can end in: \<^verbatim>\<open>fetch\<close> rejects, or there is a
  response with a status and a body that is not JSON, JSON but no array, or an array.
\<close>

datatype 'a body = InvalidJson | NotArray | JsonArray "'a item list"

datatype 'a fetched = NetworkFailure | Response nat "'a body"

definition res_ok :: "nat \<Rightarrow> bool" where
  "res_ok status = (200 \<le> status \<and> status \<le> 299)"

text \<open>\<^verbatim>\<open>json.map(item => ({ ...item, date: formatDate(item.date) }))\<close>\<close>

fun normalize_items :: "host \<Rightarrow> 'a item list \<Rightarrow> error + 'a item list" where
  "normalize_items env [] = Inr []"
| "normalize_items env (JsonNull # xs) = Inl TypeError"
| "normalize_items env (JsonObject e # xs) =
     (case formatDate env (Value (date e)) of
        Inl err \<Rightarrow> Inl err
      | Inr s \<Rightarrow>
          (case normalize_items env xs of
             Inl err \<Rightarrow> Inl err
           | Inr ys \<Rightarrow> Inr (JsonObject (e\<lparr>date := JStr s\<rparr>) # ys)))"

text \<open>The body of the \<^verbatim>\<open>try\<close> block, and the function with its \<^verbatim>\<open>catch\<close>.\<close>

definition fetchClassFeed_try :: "host \<Rightarrow> 'a fetched \<Rightarrow> error + 'a item list" where
  "fetchClassFeed_try env r =
     (case r of
        NetworkFailure \<Rightarrow> Inl TypeError
      | Response status b \<Rightarrow>
          if \<not> res_ok status then Inr []
          else (case b of
                  InvalidJson \<Rightarrow> Inl SyntaxError
                | NotArray \<Rightarrow> Inr []
                | JsonArray json \<Rightarrow> normalize_items env json))"

definition fetchClassFeed :: "host \<Rightarrow> 'a fetched \<Rightarrow> 'a item list" where
  "fetchClassFeed env r = (case fetchClassFeed_try env r of Inl err \<Rightarrow> [] | Inr feed \<Rightarrow> feed)"

text \<open>
  Two notions to speak about the loader. \<open>normalized env x y\<close>: the element \<open>x\<close> is an
  object whose date formats, and \<open>y\<close> is \<open>x\<close> with that string for its date. \<open>unusable\<close>
  holds of an element at which the \<^verbatim>\<open>map\<close> of the loader throws: \<^verbatim>\<open>null\<close>, or an object
  whose date does not format.
\<close>

definition normalized :: "host \<Rightarrow> 'a item \<Rightarrow> 'a item \<Rightarrow> bool" where
  "normalized env x y =
     (case x of
        JsonNull \<Rightarrow> False
      | JsonObject e \<Rightarrow>
          (case formatDate env (Value (date e)) of
             Inl err \<Rightarrow> False
           | Inr s \<Rightarrow> y = JsonObject (e\<lparr>date := JStr s\<rparr>)))"

definition unusable :: "host \<Rightarrow> 'a item \<Rightarrow> bool" where
  "unusable env x =
     (case x of JsonNull \<Rightarrow> True | JsonObject e \<Rightarrow> isl (formatDate env (Value (date e))))"

subsection \<open>\<^verbatim>\<open>handleFetch\<close>: from the feed to the gallery's entries\<close>

text \<open>
  The \<^verbatim>\<open>forEach\<close> that fills the \<^verbatim>\<open>Map\<close> \<open>feedByDate\<close>: an entry that is falsy or has a
  falsy date is passed over, any other is stored under its formatted date, replacing what
  was stored there.
\<close>

fun feedByDate_fill ::
  "host \<Rightarrow> 'a item list \<Rightarrow> (string \<rightharpoonup> 'a entry) \<Rightarrow> error + (string \<rightharpoonup> 'a entry)" where
  "feedByDate_fill env [] m = Inr m"
| "feedByDate_fill env (JsonNull # xs) m = feedByDate_fill env xs m"
| "feedByDate_fill env (JsonObject e # xs) m =
     (if truthy (date e) then
        (case formatDate env (Value (date e)) of
           Inl err \<Rightarrow> Inl err
         | Inr k \<Rightarrow> feedByDate_fill env xs (m(k \<mapsto> e)))
      else feedByDate_fill env xs m)"

text \<open>
  Lines 216 to 226 of \<^verbatim>\<open>handleFetch\<close>: the lookup is built, the nine wanted dates are
  computed, each is looked up, and the dates with no entry are filtered out.
\<close>

definition handleFetch_results :: "host \<Rightarrow> string \<Rightarrow> 'a item list \<Rightarrow> error + 'a entry list" where
  "handleFetch_results env startIso feed =
     (case feedByDate_fill env feed Map.empty of
        Inl err \<Rightarrow> Inl err
      | Inr feedByDate \<Rightarrow>
          (case nineDatesFrom env startIso of
             Inl err \<Rightarrow> Inl err
           | Inr wantedDates \<Rightarrow> Inr (List.map_filter feedByDate wantedDates)))"

text \<open>
  Three notions to speak about the loop above. \<open>stored_pair\<close> is the key and the entry one
  element of the feed puts into the lookup, if it puts any; \<open>fill_throws\<close> holds of an
  element at which the loop throws (a truthy date that does not format); \<open>lookup_keys\<close> are
  the normalized dates of the feed's elements, in feed order.
\<close>

definition stored_pair :: "host \<Rightarrow> 'a item \<Rightarrow> (string \<times> 'a entry) option" where
  "stored_pair env x =
     (case x of
        JsonNull \<Rightarrow> None
      | JsonObject e \<Rightarrow>
          if truthy (date e) then
            (case formatDate env (Value (date e)) of Inl err \<Rightarrow> None | Inr k \<Rightarrow> Some (k, e))
          else None)"

definition fill_throws :: "host \<Rightarrow> 'a item \<Rightarrow> bool" where
  "fill_throws env x =
     (case x of
        JsonNull \<Rightarrow> False
      | JsonObject e \<Rightarrow> truthy (date e) \<and> isl (formatDate env (Value (date e))))"

definition lookup_keys :: "host \<Rightarrow> 'a item list \<Rightarrow> string list" where
  "lookup_keys env feed = map fst (List.map_filter (stored_pair env) feed)"

subsection \<open>The page, \<^verbatim>\<open>setLoading\<close> and the whole of \<^verbatim>\<open>handleFetch\<close>\<close>

text \<open>
  The part of the page the handler reads and writes. An element the page does not have is
  \<^term>\<open>None\<close>, as \<^verbatim>\<open>getElementById\<close> returns \<^verbatim>\<open>null\<close> for it. \<open>startDateInput\<close> holds the
  value of the input, \<open>loadingEl\<close> its \<^verbatim>\<open>hidden\<close> flag, \<open>galleryEl\<close> what the gallery shows.
\<close>

record button =
  disabled :: bool
  loading_class :: bool

datatype 'a gallery = Untouched | Placeholder | Tiles "'a entry list"

record 'a page =
  startDateInput :: "string option"
  loadingEl :: "bool option"
  getImageBtn :: "button option"
  galleryEl :: "'a gallery option"
  alerts :: "string list"

definition setLoading :: "bool \<Rightarrow> 'a page \<Rightarrow> 'a page" where
  "setLoading show p =
     (case loadingEl p of
        None \<Rightarrow> p
      | Some h \<Rightarrow>
          (case getImageBtn p of
             None \<Rightarrow> p
           | Some b \<Rightarrow>
               p\<lparr>loadingEl := Some (\<not> show),
                 getImageBtn := Some (b\<lparr>disabled := show, loading_class := show\<rparr>)\<rparr>))"

definition renderGallery :: "'a entry list \<Rightarrow> 'a page \<Rightarrow> error + 'a page" where
  "renderGallery items p =
     (case galleryEl p of
        None \<Rightarrow> Inl TypeError
      | Some g \<Rightarrow>
          if items = [] then Inr (p\<lparr>galleryEl := Some Placeholder\<rparr>)
          else Inr (p\<lparr>galleryEl := Some (Tiles (take 9 items))\<rparr>))"

text \<open>
  \<^verbatim>\<open>handleFetch\<close> runs in two parts, before and after the \<^verbatim>\<open>await\<close> of the feed. The first
  part ends the handler when no start date is chosen, or leaves the page as it is while the
  request is outstanding. The second part takes the feed; an error thrown in it is caught
  and reported by an alert. \<^verbatim>\<open>finally\<close> runs \<^verbatim>\<open>setLoading(false)\<close> on every way out.
  (\<^verbatim>\<open>USE_APOD\<close> is \<^verbatim>\<open>false\<close>: the feed is that of \<^verbatim>\<open>fetchClassFeed\<close>. The debug block only
  logs and swallows its own errors.)
\<close>

datatype 'a suspended = Returned "'a page" | Awaiting string "'a page"

definition handleFetch_begin :: "'a page \<Rightarrow> 'a suspended" where
  "handleFetch_begin p =
     (case startDateInput p of
        None \<Rightarrow> Returned (setLoading False (p\<lparr>alerts := alerts p @ [''Please choose a start date first.'']\<rparr>))
      | Some startIso \<Rightarrow>
          if startIso = [] then
            Returned (setLoading False (p\<lparr>alerts := alerts p @ [''Please choose a start date first.'']\<rparr>))
          else Awaiting startIso (setLoading True p))"

definition handleFetch_resume :: "host \<Rightarrow> string \<Rightarrow> 'a item list \<Rightarrow> 'a page \<Rightarrow> 'a page" where
  "handleFetch_resume env startIso feed p =
     (let r = (case handleFetch_results env startIso feed of
                 Inl err \<Rightarrow> Inl err
               | Inr results \<Rightarrow> renderGallery results p)
      in setLoading False
           (case r of
              Inl err \<Rightarrow> p\<lparr>alerts := alerts p @ [''An error occurred while fetching images. See the console for details.'']\<rparr>
            | Inr p' \<Rightarrow> p'))"

text \<open>The pages the handler goes through: while the request is outstanding (if it gets
  there), and when it has returned.\<close>

definition handleFetch :: "host \<Rightarrow> 'a fetched \<Rightarrow> 'a page \<Rightarrow> 'a page list" where
  "handleFetch env r p =
     (case handleFetch_begin p of
        Returned p' \<Rightarrow> [p']
      | Awaiting startIso p1 \<Rightarrow> [p1, handleFetch_resume env startIso (fetchClassFeed env r) p1])"

subsection \<open>Two hosts\<close>

text \<open>
  A host on UTC, and a host on US Eastern time around the start of daylight saving time in
  2021: five hours behind UTC until 2021-03-14T07:00:00Z (02:00 local time), four hours
  behind from then on. Of the strings that are not plain calendar dates, both parsers
  recognise none.
\<close>

definition utc_host :: host where
  "utc_host = \<lparr>ltza_utc = (\<lambda>t. 0), ltza_local = (\<lambda>t. 0), parse_other = (\<lambda>s. None)\<rparr>"

definition eastern_host :: host where
  "eastern_host =
     \<lparr>ltza_utc = (\<lambda>t. if t < 1615705200000 then - 18000000 else - 14400000),
      ltza_local = (\<lambda>t. if t < 1615687200000 then - 18000000 else - 14400000),
      parse_other = (\<lambda>s. None)\<rparr>"

text \<open>
  A host keeps a steady offset over the window of a start date when its UTC offset at each
  of the nine local times the loop sets is its offset at the start.
\<close>

definition steady_window :: "host \<Rightarrow> string \<Rightarrow> bool" where
  "steady_window env startIso =
     (case new_Date env (JStr startIso) of
        None \<Rightarrow> False
      | Some t \<Rightarrow>
          list_all (\<lambda>i. ltza_local env (LocalTime env t + int i * msPerDay) = ltza_utc env t)
            [0..<9])"

text \<open>
  The calendar in the words of the specification, to compare the window with: the day after
  a calendar date (with the rollover of month and year), the canonical string of a date, and
  the calendar date of a time value.
\<close>

definition next_day :: "int \<times> int \<times> int \<Rightarrow> int \<times> int \<times> int" where
  "next_day ymd =
     (case ymd of (y, m, d) \<Rightarrow>
        if d < DaysInMonth y m then (y, m, d + 1)
        else if m < 12 then (y, m + 1, 1)
        else (y + 1, 1, 1))"

definition ymd_string :: "int \<times> int \<times> int \<Rightarrow> string" where
  "ymd_string ymd = (case ymd of (y, m, d) \<Rightarrow> pad4 y @ ''-'' @ pad2 m @ ''-'' @ pad2 d)"

definition civil :: "int \<Rightarrow> int \<times> int \<times> int" where
  "civil t = (YearFromTime t, MonthFromTime t + 1, DateFromTime t)"

section \<open>Facts about the calendar arithmetic\<close>

lemma DayFromYear_less_Suc: "DayFromYear y < DayFromYear (y + 1)"
  using DayFromYear_Suc [of y] DaysInYear_pos [of y] by linarith

lemma year_down_le: "DayFromYear (year_down n y) \<le> n"
proof (induction n y rule: year_down.induct)
  case (1 n y)
  show ?case
  proof (cases "n < DayFromYear y")
    case True
    with "1.IH" show ?thesis by (subst year_down.simps) simp
  next
    case False
    then show ?thesis by (subst year_down.simps) simp
  qed
qed

lemma year_up_bounds:
  "DayFromYear y \<le> n \<Longrightarrow>
   DayFromYear (year_up n y) \<le> n \<and> n < DayFromYear (year_up n y + 1)"
proof (induction n y rule: year_up.induct)
  case (1 n y)
  show ?case
  proof (cases "DayFromYear (y + 1) \<le> n")
    case True
    with "1.IH" show ?thesis by (subst (1 2) year_up.simps) simp
  next
    case False
    with "1.prems" show ?thesis by (subst (1 2) year_up.simps) simp
  qed
qed

lemma DayFromYear_mono: "y \<le> z \<Longrightarrow> DayFromYear y \<le> DayFromYear z"
proof (induction z rule: int_ge_induct)
  case base
  show ?case by simp
next
  case (step i)
  then show ?case using DayFromYear_less_Suc [of i] by linarith
qed

lemma year_unique:
  assumes "DayFromYear y \<le> n" "n < DayFromYear (y + 1)"
    and "DayFromYear z \<le> n" "n < DayFromYear (z + 1)"
  shows "y = z"
proof (rule ccontr)
  assume "y \<noteq> z"
  then consider "y + 1 \<le> z" | "z + 1 \<le> y" by linarith
  then show False
  proof cases
    case 1
    from DayFromYear_mono [OF 1] assms show False by linarith
  next
    case 2
    from DayFromYear_mono [OF 2] assms show False by linarith
  qed
qed

lemma YearFromTime_bounds:
  "DayFromYear (YearFromTime t) \<le> Day t \<and> Day t < DayFromYear (YearFromTime t + 1)"
  unfolding YearFromTime_def by (rule year_up_bounds) (rule year_down_le)

lemma YearFromTime_eq:
  "DayFromYear y \<le> Day t \<Longrightarrow> Day t < DayFromYear (y + 1) \<Longrightarrow> YearFromTime t = y"
  using YearFromTime_bounds [of t] year_unique by blast

lemma YearFromTime_spec:
  "TimeFromYear (YearFromTime t) \<le> t \<and> t < TimeFromYear (YearFromTime t + 1)"
proof -
  have a: "msPerDay * Day t \<le> t" "t < msPerDay * (Day t + 1)"
    unfolding Day_def msPerDay_def by (simp_all add: algebra_simps)
  have p: "(0::int) \<le> msPerDay" by (simp add: msPerDay_def)
  from YearFromTime_bounds [of t]
  have "msPerDay * DayFromYear (YearFromTime t) \<le> msPerDay * Day t"
    and "msPerDay * (Day t + 1) \<le> msPerDay * DayFromYear (YearFromTime t + 1)"
    using p by (simp_all add: mult_left_mono)
  with a show ?thesis unfolding TimeFromYear_def by linarith
qed

lemma DayWithinYear_bounds: "0 \<le> DayWithinYear t \<and> DayWithinYear t < DaysInYear (YearFromTime t)"
  using YearFromTime_bounds [of t] DayFromYear_Suc [of "YearFromTime t"]
  unfolding DayWithinYear_def by linarith

lemma DayWithinYear_leap: "DayWithinYear t < 365 + InLeapYear t"
  using DayWithinYear_bounds [of t] unfolding InLeapYear_def DaysInYear_def
  by (simp split: if_splits)

lemma InLeapYear_cases: "InLeapYear t = 0 \<or> InLeapYear t = 1"
  by (simp add: InLeapYear_def)

lemma MonthFromTime_range: "0 \<le> MonthFromTime t \<and> MonthFromTime t \<le> 11"
  by (simp add: MonthFromTime_def Let_def)

lemma DayFromMonth_MonthFromTime:
  "DayFromMonth (MonthFromTime t) (InLeapYear t) + DateFromTime t - 1 = DayWithinYear t"
  using DayWithinYear_bounds [of t] InLeapYear_cases [of t]
  unfolding DateFromTime_def Let_def
  by (simp add: MonthFromTime_def DayFromMonth_def Let_def)


lemma MakeDay_from_time:
  "MakeDay (YearFromTime t) (MonthFromTime t) (DateFromTime t + k) = Day t + k"
proof -
  have m: "MonthFromTime t div 12 = 0" "MonthFromTime t mod 12 = MonthFromTime t"
    using MonthFromTime_range [of t] by simp_all
  have "MakeDay (YearFromTime t) (MonthFromTime t) (DateFromTime t + k) =
        DayFromYear (YearFromTime t) + DayFromMonth (MonthFromTime t) (InLeapYear t)
          + (DateFromTime t + k) - 1"
    by (simp add: MakeDay_def m InLeapYear_def)
  also have "\<dots> = DayFromYear (YearFromTime t) + DayWithinYear t + k"
    using DayFromMonth_MonthFromTime [of t] by linarith
  also have "\<dots> = Day t + k" by (simp add: DayWithinYear_def)
  finally show ?thesis .
qed

lemma DateFromTime_valid: "valid_ymd (YearFromTime t) (MonthFromTime t + 1) (DateFromTime t)"
  using DayWithinYear_bounds [of t] InLeapYear_cases [of t] DayWithinYear_leap [of t]
  unfolding valid_ymd_def DaysInMonth_def DateFromTime_def Let_def
  by (simp add: MonthFromTime_def InLeapYear_def Let_def split: if_splits)

lemma Day_MakeDate: "Day (MakeDate n 0) = n"
  by (simp add: Day_def MakeDate_def msPerDay_def)

lemma month_cases:
  fixes m :: int
  assumes "1 \<le> m" "m \<le> 12"
  shows "m = 1 \<or> m = 2 \<or> m = 3 \<or> m = 4 \<or> m = 5 \<or> m = 6 \<or> m = 7 \<or> m = 8 \<or> m = 9
         \<or> m = 10 \<or> m = 11 \<or> m = 12"
  using assms by arith

lemma leap_flag: "DaysInYear y = 365 + (if DaysInYear y = 366 then 1 else 0)"
  by (simp add: DaysInYear_def)

lemma DayFromMonth_valid:
  assumes v: "valid_ymd y m d"
  defines "l \<equiv> (if DaysInYear y = 366 then 1 else 0)"
  shows "0 \<le> DayFromMonth (m - 1) l + d - 1 \<and> DayFromMonth (m - 1) l + d - 1 < 365 + l"
proof -
  have d: "1 \<le> d" "d \<le> DaysInMonth y m" and m: "1 \<le> m" "m \<le> 12"
    using v by (simp_all add: valid_ymd_def)
  have l: "l = 0 \<or> l = 1" by (simp add: l_def)
  have dim: "DaysInMonth y 2 = 28 + l" by (simp add: DaysInMonth_def l_def)
  from month_cases [OF m] show ?thesis
    using d l dim by (elim disjE) (simp_all add: DayFromMonth_def DaysInMonth_def)
qed

lemma month_date_of_offset:
  fixes l :: int
  assumes m: "1 \<le> m" "m \<le> 12" and d: "1 \<le> d" "d \<le> DaysInMonth y m"
    and l: "l = (if DaysInYear y = 366 then 1 else 0)"
    and w: "w = DayFromMonth (m - 1) l + d - 1"
  shows "(if w < 31 then 0
      else if w < 59 + l then 1
      else if w < 90 + l then 2
      else if w < 120 + l then 3
      else if w < 151 + l then 4
      else if w < 181 + l then 5
      else if w < 212 + l then 6
      else if w < 243 + l then 7
      else if w < 273 + l then 8
      else if w < 304 + l then 9
      else if w < 334 + l then 10
      else 11) = m - 1"
proof -
  have l01: "l = 0 \<or> l = 1" by (simp add: l)
  have dim: "DaysInMonth y 2 = 28 + l" by (simp add: DaysInMonth_def l)
  from month_cases [OF m] show ?thesis
    using d l01 dim unfolding w by (elim disjE) (simp_all add: DayFromMonth_def DaysInMonth_def)
qed

lemma civil_of_MakeDay:
  assumes v: "valid_ymd y m d"
  defines "t \<equiv> MakeDate (MakeDay y (m - 1) d) 0"
  shows "YearFromTime t = y" and "MonthFromTime t = m - 1" and "DateFromTime t = d"
proof -
  define l :: int where "l = (if DaysInYear y = 366 then 1 else 0)"
  have vm: "1 \<le> m" "m \<le> 12" and vd: "1 \<le> d" "d \<le> DaysInMonth y m"
    using v by (simp_all add: valid_ymd_def)
  have m: "(m - 1) div 12 = 0" "(m - 1) mod 12 = m - 1"
    using vm by simp_all
  have day: "Day t = DayFromYear y + DayFromMonth (m - 1) l + d - 1"
    by (simp add: t_def Day_MakeDate MakeDay_def m l_def)
  have off: "0 \<le> DayFromMonth (m - 1) l + d - 1" "DayFromMonth (m - 1) l + d - 1 < DaysInYear y"
    using DayFromMonth_valid [OF v] leap_flag [of y] unfolding l_def by linarith+
  show y: "YearFromTime t = y"
    by (rule YearFromTime_eq) (use day off DayFromYear_Suc [of y] in linarith)+
  have l: "InLeapYear t = l" by (simp add: InLeapYear_def y l_def)
  have w: "DayWithinYear t = DayFromMonth (m - 1) l + d - 1"
    by (simp add: DayWithinYear_def y day)
  show mo: "MonthFromTime t = m - 1"
    unfolding MonthFromTime_def Let_def l
    by (rule month_date_of_offset [OF vm vd l_def w])
  have "DayFromMonth (MonthFromTime t) (InLeapYear t) + DateFromTime t - 1 = DayWithinYear t"
    by (rule DayFromMonth_MonthFromTime)
  then show "DateFromTime t = d" unfolding mo l w by simp
qed

subsection \<open>Decimal digits\<close>

lemma digit_cases:
  fixes n :: int
  assumes "0 \<le> n" "n \<le> 9"
  shows "n \<in> set [0, 1, 2, 3, 4, 5, 6, 7, 8, 9]"
  using assms by simp arith

lemma digit_val_char: "0 \<le> n \<Longrightarrow> n \<le> 9 \<Longrightarrow> digit_val (digit_char n) = Some n"
  by (drule (1) digit_cases) (auto simp: digit_val_def digit_char_def)

lemma digit_char_val: "digit_val c = Some v \<Longrightarrow> digit_char v = c \<and> 0 \<le> v \<and> v \<le> 9"
  by (auto simp: digit_val_def digit_char_def split: if_splits)

lemma digit_split:
  fixes a b :: int
  assumes "0 \<le> b" "b \<le> 9"
  shows "(10 * a + b) div 10 = a" and "(10 * a + b) mod 10 = b"
  using assms by simp_all

lemma mod10_digit: "0 \<le> (a::int) \<Longrightarrow> a \<le> 9 \<Longrightarrow> a mod 10 = a"
  by simp

lemma pad2_digits:
  assumes "digits_val [c1, c2] 0 = Some n"
  shows "pad2 n = [c1, c2] \<and> 0 \<le> n \<and> n \<le> 99"
proof -
  from assms obtain v1 v2 where v: "digit_val c1 = Some v1" "digit_val c2 = Some v2"
    and n: "n = 10 * v1 + v2"
    by (auto split: option.splits)
  note d1 = digit_char_val [OF v(1)] and d2 = digit_char_val [OF v(2)]
  have "n mod 10 = v2" "n div 10 = v1" using d2 by (simp_all add: n)
  then show ?thesis using d1 d2 by (simp add: pad2_def n)
qed

lemma pad4_digits:
  assumes "digits_val [c1, c2, c3, c4] 0 = Some n"
  shows "pad4 n = [c1, c2, c3, c4] \<and> 0 \<le> n \<and> n \<le> 9999"
proof -
  from assms obtain v1 v2 v3 v4 where v: "digit_val c1 = Some v1" "digit_val c2 = Some v2"
    "digit_val c3 = Some v3" "digit_val c4 = Some v4"
    and n: "n = 10 * (10 * (10 * v1 + v2) + v3) + v4"
    by (auto split: option.splits)
  note d1 = digit_char_val [OF v(1)] and d2 = digit_char_val [OF v(2)]
    and d3 = digit_char_val [OF v(3)] and d4 = digit_char_val [OF v(4)]
  have a: "n mod 10 = v4" "n div 10 = 10 * (10 * v1 + v2) + v3"
    unfolding n using d4 by (simp_all only: digit_split)
  have b: "n div 10 mod 10 = v3" "n div 10 div 10 = 10 * v1 + v2"
    unfolding a using d3 by (simp_all only: digit_split)
  have c: "n div 10 div 10 mod 10 = v2" "n div 10 div 10 div 10 = v1"
    unfolding b using d2 by (simp_all only: digit_split)
  have e: "n div 100 = n div 10 div 10" "n div 1000 = n div 10 div 10 div 10"
    using zdiv_zmult2_eq [of 10 n 10] zdiv_zmult2_eq [of 10 n 100] zdiv_zmult2_eq [of 10 "n div 10" 10] by simp_all
  have "v1 mod 10 = v1" using d1 by simp
  then have q: "n div 1000 mod 10 = v1" "n div 100 mod 10 = v2" "n div 10 mod 10 = v3"
    "n mod 10 = v4"
    by (simp_all only: e c b(1) a(1))
  have "pad4 n = [c1, c2, c3, c4]"
    unfolding pad4_def pad3_def pad2_def q using d1 d2 d3 d4 by simp
  moreover have "0 \<le> n \<and> n \<le> 9999" using d1 d2 d3 d4 unfolding n by simp
  ultimately show ?thesis by simp
qed

lemma digits_pad2: 
  assumes "0 \<le> n" "n \<le> 99" 
  shows "digits_val (pad2 n) 0 = Some n"
proof -
  have r: "0 \<le> n div 10" "n div 10 \<le> 9" "0 \<le> n mod 10" "n mod 10 \<le> 9" using assms by simp_all
  have "10 * (n div 10) + n mod 10 = n" by simp
  then show ?thesis using r
    by (simp add: pad2_def digit_val_char)
qed

lemma digits_pad4: 
  assumes "0 \<le> n" "n \<le> 9999" 
  shows "digits_val (pad4 n) 0 = Some n"
proof -
  define a b c where "a = n div 10" and "b = a div 10" and "c = b div 10"
  have e: "n div 100 = b" "n div 1000 = c"
    using zdiv_zmult2_eq [of 10 n 10] zdiv_zmult2_eq [of 10 n 100] zdiv_zmult2_eq [of 10 "n div 10" 10] 
    by (simp_all add: a_def b_def c_def)
  have r: "0 \<le> c" "c \<le> 9" using assms by (simp_all add: e [symmetric])
  have s: "10 * a + n mod 10 = n" "10 * b + a mod 10 = a" "10 * c + b mod 10 = b"
    by (simp_all add: a_def b_def c_def)
  have "digits_val (pad4 n) 0 = Some (10 * (10 * (10 * (c mod 10) + b mod 10) + a mod 10) + n mod 10)"
    by (simp add: pad4_def pad3_def pad2_def e digit_val_char a_def [symmetric])
  also have "c mod 10 = c" using r by simp
  finally show ?thesis using s by simp
qed

subsection \<open>Calendar-date strings\<close>

lemma list10:
  assumes "length s = 10"
  obtains c0 c1 c2 c3 c4 c5 c6 c7 c8 c9 where "s = [c0, c1, c2, c3, c4, c5, c6, c7, c8, c9]"
proof -
  from assms have "\<exists>c0 c1 c2 c3 c4 c5 c6 c7 c8 c9. s = [c0, c1, c2, c3, c4, c5, c6, c7, c8, c9]"
    by (simp add: numeral_eq_Suc length_Suc_conv) blast
  then show ?thesis using that by blast
qed

lemma parse_ymd_string:
  assumes "parse_ymd s = Some (y, m, d)"
  shows "s = pad4 y @ ''-'' @ pad2 m @ ''-'' @ pad2 d \<and> 0 \<le> y \<and> y \<le> 9999 \<and> valid_ymd y m d"
proof -
  from assms have len: "length s = 10"
    by (simp add: parse_ymd_def split: if_splits)
  then obtain c0 c1 c2 c3 c4 c5 c6 c7 c8 c9
    where s: "s = [c0, c1, c2, c3, c4, c5, c6, c7, c8, c9]" by (rule list10)
  from assms have h: "c4 = CHR ''-''" "c7 = CHR ''-''"
    and y: "digits_val [c0, c1, c2, c3] 0 = Some y"
    and m: "digits_val [c5, c6] 0 = Some m"
    and d: "digits_val [c8, c9] 0 = Some d"
    and v: "valid_ymd y m d"
    unfolding parse_ymd_def s by (simp_all split: if_splits option.splits)
  from pad4_digits [OF y] pad2_digits [OF m] pad2_digits [OF d] h v
  show ?thesis by (simp add: s)
qed

lemma length_pad [simp]: "length (pad2 n) = 2" "length (pad3 n) = 3" "length (pad4 n) = 4"
  "length (pad6 n) = 6"
  by (simp_all add: pad2_def pad3_def pad4_def pad6_def)

lemma parse_ymd_pad:
  assumes y: "0 \<le> y" "y \<le> 9999" and v: "valid_ymd y m d"
  shows "parse_ymd (pad4 y @ ''-'' @ pad2 m @ ''-'' @ pad2 d) = Some (y, m, d)"
proof -
  have m: "0 \<le> m" "m \<le> 99" and d: "0 \<le> d" "d \<le> 99"
    using v by (auto simp: valid_ymd_def DaysInMonth_def split: if_splits)
  have n: "(pad4 y @ ''-'' @ pad2 m @ ''-'' @ pad2 d) ! 4 = CHR ''-''"
    "(pad4 y @ ''-'' @ pad2 m @ ''-'' @ pad2 d) ! 7 = CHR ''-''"
    by (simp_all add: nth_append)
  show ?thesis
    unfolding parse_ymd_def
    using n v by (simp add: digits_pad4 [OF y] digits_pad2 [OF m] digits_pad2 [OF d])
qed

subsection \<open>\<^verbatim>\<open>formatDate\<close> on calendar dates\<close>

lemma formatDate_Value: "formatDate env (Value v) = formatDate env (DateObj (new_Date env v))"
  by (simp add: formatDate_def)

lemma formatDate_NaN: "formatDate env (DateObj None) = Inl RangeError"
  by (simp add: formatDate_def toISOString_def)

lemma formatDate_error: "formatDate env x = Inl e \<Longrightarrow> e = RangeError"
  by (auto simp: formatDate_def toISOString_def Let_def split: option.splits date_arg.splits)


lemma formatDate_in_range:
  assumes "0 \<le> YearFromTime t" "YearFromTime t \<le> 9999"
  shows "formatDate env (DateObj (Some t)) =
         Inr (pad4 (YearFromTime t) @ ''-'' @ pad2 (MonthFromTime t + 1) @ ''-'' @ pad2 (DateFromTime t))"
  using assms by (simp add: formatDate_def toISOString_def year_string_def)

lemma formatDate_out_of_range:
  assumes "\<not> (0 \<le> YearFromTime t \<and> YearFromTime t \<le> 9999)"
  shows "\<exists>s. formatDate env (DateObj (Some t)) = Inr s \<and> (hd s = CHR ''+'' \<or> hd s = CHR ''-'')"
  using assms by (simp add: formatDate_def toISOString_def year_string_def)

lemma not_ymd_sign: "hd s = CHR ''+'' \<or> hd s = CHR ''-'' \<Longrightarrow> \<not> is_ymd s"
proof
  assume h: "hd s = CHR ''+'' \<or> hd s = CHR ''-''" and y: "is_ymd s"
  from y have "length s = 10" by (simp add: is_ymd_def)
  then obtain c0 c1 c2 c3 c4 c5 c6 c7 c8 c9
    where s: "s = [c0, c1, c2, c3, c4, c5, c6, c7, c8, c9]" by (rule list10)
  from y have "digit_val c0 \<noteq> None" by (auto simp: is_ymd_def s split: option.splits)
  with h show False by (auto simp: s digit_val_def)
qed

lemma DayFromYear_0: "DayFromYear 0 = - 719528"
  by (simp add: DayFromYear_def)

lemma DayFromYear_10000: "DayFromYear 10000 = 2932897"
  by (simp add: DayFromYear_def)

lemma year_range_time:
  assumes "0 \<le> YearFromTime t" "YearFromTime t \<le> 9999"
  shows "- 719528 \<le> Day t \<and> Day t < 2932897"
proof -
  have "DayFromYear 0 \<le> DayFromYear (YearFromTime t)"
    and "DayFromYear (YearFromTime t + 1) \<le> DayFromYear 10000"
    using assms by (simp_all add: DayFromYear_mono)
  with YearFromTime_bounds [of t] show ?thesis
    by (simp add: DayFromYear_0 DayFromYear_10000)
qed

lemma TimeClip_day: "- 719528 \<le> n \<Longrightarrow> n < 2932897 \<Longrightarrow> TimeClip (MakeDate n 0) = Some (MakeDate n 0)"
  by (simp add: TimeClip_def MakeDate_def msPerDay_def)

lemma new_Date_ymd:
  assumes "parse_ymd s = Some (y, m, d)"
  shows "new_Date env (JStr s) = Some (MakeDate (MakeDay y (m - 1) d) 0)"
proof -
  from parse_ymd_string [OF assms] have y: "0 \<le> y" "y \<le> 9999" and v: "valid_ymd y m d"
    by simp_all
  let ?t = "MakeDate (MakeDay y (m - 1) d) 0"
  have "YearFromTime ?t = y" by (rule civil_of_MakeDay [OF v])
  with year_range_time [of ?t] y have "- 719528 \<le> Day ?t \<and> Day ?t < 2932897" by simp
  then have "TimeClip ?t = Some ?t" using TimeClip_day [of "MakeDay y (m - 1) d"]
    by (simp add: Day_MakeDate)
  then show ?thesis by (simp add: Date_parse_def assms)
qed

lemma formatDate_ymd:
  assumes "parse_ymd s = Some (y, m, d)"
  shows "formatDate env (Value (JStr s)) = Inr s"
proof -
  from parse_ymd_string [OF assms] have s: "s = pad4 y @ ''-'' @ pad2 m @ ''-'' @ pad2 d"
    and y: "0 \<le> y" "y \<le> 9999" and v: "valid_ymd y m d"
    by simp_all
  let ?t = "MakeDate (MakeDay y (m - 1) d) 0"
  note c = civil_of_MakeDay [OF v]
  have "formatDate env (Value (JStr s)) = formatDate env (DateObj (Some ?t))"
    by (simp only: formatDate_Value new_Date_ymd [OF assms])
  also have "\<dots> = Inr (pad4 y @ ''-'' @ pad2 (m - 1 + 1) @ ''-'' @ pad2 d)"
    using formatDate_in_range [of ?t env] y c by simp
  finally show ?thesis using s by simp
qed

lemma formatDate_idem:
  assumes f: "formatDate env x = Inr s" and c: "is_ymd s"
  shows "formatDate env (Value (JStr s)) = Inr s"
proof -
  from f obtain t where x: "formatDate env x = formatDate env (DateObj (Some t))"
    by (cases x; cases "case x of DateObj dobj \<Rightarrow> dobj | Value v \<Rightarrow> new_Date env v")
       (auto simp: formatDate_def toISOString_def)
  have r: "0 \<le> YearFromTime t \<and> YearFromTime t \<le> 9999"
  proof (rule ccontr)
    assume "\<not> ?thesis"
    from formatDate_out_of_range [OF this, of env] f x not_ymd_sign [of s] c
    show False by auto
  qed
  then have s: "s = pad4 (YearFromTime t) @ ''-'' @ pad2 (MonthFromTime t + 1) @ ''-'' @ pad2 (DateFromTime t)"
    using formatDate_in_range [of t env] f x by simp
  have "parse_ymd s = Some (YearFromTime t, MonthFromTime t + 1, DateFromTime t)"
    unfolding s using r by (intro parse_ymd_pad DateFromTime_valid) simp_all
  then show ?thesis by (rule formatDate_ymd)
qed

section \<open>The window of nine dates\<close>

text \<open>
  C1. The claim: for every start date D the window is the nine consecutive calendar dates
  D, D+1, ..., D+8, whatever the daylight saving transitions. The code sets the local day
  of the month and formats in UTC, so on a host whose UTC offset grows inside the window
  it fails: on US Eastern time, from 2021-03-10, the window holds 2021-03-14 twice and
  ends on 2021-03-17, a day short of D+8 = 2021-03-18.
\<close>

theorem nineDatesFrom_dst_repeats_day:
  "nineDatesFrom eastern_host ''2021-03-10'' =
     Inr [''2021-03-10'', ''2021-03-11'', ''2021-03-12'', ''2021-03-13'', ''2021-03-14'',
          ''2021-03-14'', ''2021-03-15'', ''2021-03-16'', ''2021-03-17'']"
  by code_simp

section \<open>Normalizing twice\<close>

text \<open>
  C9. \<^verbatim>\<open>formatDate\<close> is idempotent on its own output: when it turns an input into a
  canonical YYYY-MM-DD string, formatting that string again gives the same string, on every
  host. So the second pass of \<^verbatim>\<open>handleFetch\<close> leaves a date that \<^verbatim>\<open>fetchClassFeed\<close> has
  normalized as it is.
\<close>

theorem formatDate_idempotent:
  "formatDate env x = Inr s \<Longrightarrow> is_ymd s \<Longrightarrow> formatDate env (Value (JStr s)) = Inr s"
  by (rule formatDate_idem)

theorem formatDate_idempotent_witness:
  "formatDate utc_host (Value (JNum 1624199999000)) = Inr ''2021-06-20''
   \<and> is_ymd ''2021-06-20''
   \<and> formatDate utc_host (Value (JStr ''2021-06-20'')) = Inr ''2021-06-20''"
proof -
  have a: "formatDate utc_host (Value (JNum 1624199999000)) = Inr ''2021-06-20''"
    by code_simp
  have b: "is_ymd ''2021-06-20''" by code_simp
  from formatDate_idempotent [OF a b] a b show ?thesis by simp
qed

section \<open>The lookup and the results\<close>

lemma stored_pair_simps:
  "stored_pair env JsonNull = None"
  "\<not> truthy (date e) \<Longrightarrow> stored_pair env (JsonObject e) = None"
  "truthy (date e) \<Longrightarrow> formatDate env (Value (date e)) = Inr k \<Longrightarrow>
     stored_pair env (JsonObject e) = Some (k, e)"
  "formatDate env (Value (date e)) = Inl err \<Longrightarrow> stored_pair env (JsonObject e) = None"
  by (simp_all add: stored_pair_def)

lemma fill_throws_simps:
  "\<not> fill_throws env JsonNull"
  "\<not> truthy (date e) \<Longrightarrow> \<not> fill_throws env (JsonObject e)"
  "formatDate env (Value (date e)) = Inr k \<Longrightarrow> \<not> fill_throws env (JsonObject e)"
  "truthy (date e) \<Longrightarrow> formatDate env (Value (date e)) = Inl err \<Longrightarrow>
     fill_throws env (JsonObject e)"
  by (simp_all add: fill_throws_def)

lemma fill_eq:
  "feedByDate_fill env xs m =
     (if list_ex (fill_throws env) xs then Inl RangeError
      else Inr (m ++ map_of (rev (List.map_filter (stored_pair env) xs))))"
proof (induction xs arbitrary: m)
  case Nil
  show ?case by simp
next
  case (Cons x xs)
  show ?case
  proof (cases x)
    case JsonNull
    then show ?thesis by (simp add: Cons.IH fill_throws_simps stored_pair_simps)
  next
    case (JsonObject e)
    show ?thesis
    proof (cases "truthy (date e)")
      case False
      then show ?thesis
        by (simp add: JsonObject Cons.IH fill_throws_simps stored_pair_simps)
    next
      case True
      show ?thesis
      proof (cases "formatDate env (Value (date e))")
        case (Inl err)
        then have "err = RangeError" by (rule formatDate_error)
        then show ?thesis using True Inl by (simp add: JsonObject fill_throws_simps)
      next
        case (Inr k)
        have "m(k \<mapsto> e) ++ map_of (rev (List.map_filter (stored_pair env) xs))
              = m ++ map_of (rev (List.map_filter (stored_pair env) xs) @ [(k, e)])"
          by (simp add: map_add_upd_left fun_eq_iff map_add_def split: option.splits)
        then show ?thesis using True Inr
          by (simp add: JsonObject Cons.IH fill_throws_simps stored_pair_simps)
      qed
    qed
  qed
qed

lemma nineDates_loop_length:
  "nineDates_loop env start i arr = Inr ws \<Longrightarrow> i \<le> 9 \<Longrightarrow> length ws = length arr + (9 - i)"
proof (induction env start i arr rule: nineDates_loop.induct)
  case (1 env start i arr)
  show ?case
  proof (cases "i < 9")
    case False
    with "1.prems" show ?thesis by (simp add: nineDates_loop.simps [of env start i arr])
  next
    case True
    let ?d = "setDate env start (map_option (\<lambda>g. g + int i) (getDate env start))"
    from "1.prems" True obtain s where s: "formatDate env (DateObj ?d) = Inr s"
      and n: "nineDates_loop env start (i + 1) (arr @ [s]) = Inr ws"
      by (simp add: nineDates_loop.simps [of env start i arr] Let_def split: sum.splits)
    from "1.IH" [OF True refl refl s n] True show ?thesis by simp
  qed
qed

lemma nineDatesFrom_length: "nineDatesFrom env startIso = Inr ws \<Longrightarrow> length ws = 9"
  unfolding nineDatesFrom_def by (drule nineDates_loop_length) simp_all

lemma stored_pair_Some:
  "stored_pair env x = Some (k, e) \<longleftrightarrow>
     x = JsonObject e \<and> truthy (date e) \<and> formatDate env (Value (date e)) = Inr k"
  by (cases x) (auto simp: stored_pair_def split: sum.splits)

lemma set_map_filter: "set (List.map_filter f xs) = {y. \<exists>x\<in>set xs. f x = Some y}"
  by (induction xs) (auto simp: split: option.splits)

lemma map_filter_app: "List.map_filter f (xs @ ys) = List.map_filter f xs @ List.map_filter f ys"
  by (simp add: List.map_filter_def)

lemma length_map_filter_le: "length (List.map_filter f xs) \<le> length xs"
  by (simp add: List.map_filter_def)

lemma results_eq:
  "handleFetch_results env startIso feed =
     (if list_ex (fill_throws env) feed then Inl RangeError
      else (case nineDatesFrom env startIso of
              Inl err \<Rightarrow> Inl err
            | Inr ws \<Rightarrow>
                Inr (List.map_filter (map_of (rev (List.map_filter (stored_pair env) feed))) ws)))"
  by (simp add: handleFetch_results_def fill_eq)

text \<open>Whatever the lookup holds under a key is an entry with a truthy date that formats
  to that key.\<close>

lemma lookup_entry:
  assumes "map_of (rev (List.map_filter (stored_pair env) feed)) k = Some e"
  shows "JsonObject e \<in> set feed \<and> truthy (date e) \<and> formatDate env (Value (date e)) = Inr k"
proof -
  from assms have "(k, e) \<in> set (List.map_filter (stored_pair env) feed)"
    by (auto dest: map_of_SomeD)
  then show ?thesis by (auto simp: set_map_filter stored_pair_Some)
qed

lemma results_dates:
  assumes "\<And>k e. M k = Some e \<Longrightarrow> nd e = Inr k"
  shows "map nd (List.map_filter M ws) = map Inr (filter (\<lambda>w. M w \<noteq> None) ws)"
  using assms by (induction ws) (auto simp: split: option.splits)

lemma results_of_date:
  assumes "\<And>k e. M k = Some e \<Longrightarrow> nd e = Inr k"
  shows "filter (\<lambda>r. nd r = Inr k) (List.map_filter M ws) = List.map_filter M (filter (\<lambda>w. w = k) ws)"
  using assms by (induction ws) (auto simp: split: option.splits)

lemma filter_once: "count_list ws k = 1 \<Longrightarrow> filter (\<lambda>w. w = k) ws = [k]"
proof (induction ws)
  case Nil
  then show ?case by simp
next
  case (Cons w ws)
  show ?case
  proof (cases "w = k")
    case True
    with Cons.prems have "count_list ws k = 0" by simp
    then have "k \<notin> set ws" by (simp add: count_list_0_iff)
    then have "filter (\<lambda>w. w = k) ws = []" by (auto simp: filter_empty_conv)
    with True show ?thesis by simp
  next
    case False
    with Cons show ?thesis by simp
  qed
qed

lemma lookup_perm:
  assumes p: "mset feed' = mset feed" and d: "distinct (lookup_keys env feed)"
  shows "map_of (rev (List.map_filter (stored_pair env) feed'))
       = map_of (rev (List.map_filter (stored_pair env) feed))"
proof -
  let ?ps = "List.map_filter (stored_pair env) feed" and ?ps' = "List.map_filter (stored_pair env) feed'"
  have m: "mset ?ps' = mset ?ps" by (simp add: List.map_filter_def p)
  then have "mset (map fst ?ps') = mset (map fst ?ps)" by (simp only: mset_map)
  then have "distinct (map fst ?ps') = distinct (map fst ?ps)" by (rule mset_eq_imp_distinct_iff)
  then have d': "distinct (map fst ?ps')"
    using d unfolding lookup_keys_def by simp
  have "set ?ps' = set ?ps" using m by (rule mset_eq_setD)
  then have s: "set (rev ?ps') = set (rev ?ps)" by simp
  have "distinct (map fst (rev ?ps'))" "distinct (map fst (rev ?ps))"
    using d d' by (simp_all add: lookup_keys_def distinct_map)
  then show ?thesis using s by (simp add: map_of_inject_set)
qed

section \<open>What \<^verbatim>\<open>handleFetch\<close> hands to the gallery\<close>

text \<open>
  C2. Whenever the window computes and the results are built, there are at most nine
  results, and every result has a date that is a member of the window: its normalized date
  always is, and its date field itself is when that field is a calendar-date string naming a
  day (as the dates of a loaded feed are). With an empty feed the result is empty.
\<close>

theorem results_in_window:
  assumes w: "nineDatesFrom env startIso = Inr ws"
    and r: "handleFetch_results env startIso feed = Inr rs"
  shows "length rs \<le> 9
    \<and> (\<forall>e\<in>set rs. \<exists>d\<in>set ws. formatDate env (Value (date e)) = Inr d)
    \<and> (\<forall>e\<in>set rs. \<forall>s. date e = JStr s \<and> parse_ymd s \<noteq> None \<longrightarrow> s \<in> set ws)
    \<and> handleFetch_results env startIso ([] :: 'a item list) = Inr []"
proof -
  let ?M = "map_of (rev (List.map_filter (stored_pair env) feed))"
  from r w have rs: "rs = List.map_filter ?M ws"
    by (simp add: results_eq split: if_splits)
  have len: "length rs \<le> 9"
    using length_map_filter_le [of ?M ws] nineDatesFrom_length [OF w] by (simp add: rs)
  have mem: "\<exists>d\<in>set ws. formatDate env (Value (date e)) = Inr d" if "e \<in> set rs" for e
  proof -
    from that obtain d where "d \<in> set ws" "?M d = Some e"
      by (auto simp: rs set_map_filter)
    with lookup_entry [of env feed d e] show ?thesis by blast
  qed
  have lit: "s \<in> set ws" if "e \<in> set rs" "date e = JStr s" "parse_ymd s \<noteq> None" for e s
  proof -
    from mem [OF that(1)] obtain d where d: "d \<in> set ws" "formatDate env (Value (date e)) = Inr d"
      by blast
    from that(3) obtain y m dd where "parse_ymd s = Some (y, m, dd)" by auto
    from formatDate_ymd [OF this, of env] d that(2) show ?thesis by simp
  qed
  have "handleFetch_results env startIso ([] :: 'a item list) = Inr []"
    by (simp add: results_eq w List.map_filter_def)
  with len mem lit show ?thesis by blast
qed

theorem results_in_window_witness:
  "nineDatesFrom utc_host ''2021-06-20'' =
     Inr [''2021-06-20'', ''2021-06-21'', ''2021-06-22'', ''2021-06-23'', ''2021-06-24'',
          ''2021-06-25'', ''2021-06-26'', ''2021-06-27'', ''2021-06-28'']
   \<and> handleFetch_results utc_host ''2021-06-20''
        [JsonObject \<lparr>date = JStr ''2021-07-01'', rest = ''c''\<rparr>,
         JsonObject \<lparr>date = JStr ''2021-06-22'', rest = ''b''\<rparr>]
      = Inr [\<lparr>date = JStr ''2021-06-22'', rest = ''b''\<rparr>]
   \<and> length [\<lparr>date = JStr ''2021-06-22'', rest = ''b''\<rparr>] \<le> 9
   \<and> handleFetch_results utc_host ''2021-06-20'' ([] :: string item list) = Inr []"
proof -
  have a: "nineDatesFrom utc_host ''2021-06-20'' =
     Inr [''2021-06-20'', ''2021-06-21'', ''2021-06-22'', ''2021-06-23'', ''2021-06-24'',
          ''2021-06-25'', ''2021-06-26'', ''2021-06-27'', ''2021-06-28'']"
    by code_simp
  have b: "handleFetch_results utc_host ''2021-06-20''
        [JsonObject \<lparr>date = JStr ''2021-07-01'', rest = ''c''\<rparr>,
         JsonObject \<lparr>date = JStr ''2021-06-22'', rest = ''b''\<rparr>]
      = Inr [\<lparr>date = JStr ''2021-06-22'', rest = ''b''\<rparr>]"
    by code_simp
  from results_in_window [OF a b]
  have c: "handleFetch_results utc_host ''2021-06-20'' ([] :: string item list) = Inr []"
    by (rule conjunct2 [THEN conjunct2, THEN conjunct2])
  from a b c show ?thesis by simp
qed

text \<open>
  Two feeds that are permutations of each other, with no normalized date twice, give the
  same results, on every host; and the results come in the order of the wanted dates.
\<close>

lemma results_feed_order:
  assumes p: "mset feed' = mset feed" and d: "distinct (lookup_keys env feed)"
  shows "handleFetch_results env startIso feed' = handleFetch_results env startIso feed
    \<and> (\<forall>ws rs. nineDatesFrom env startIso = Inr ws
           \<and> handleFetch_results env startIso feed = Inr rs
         \<longrightarrow> subseq (map (\<lambda>e. formatDate env (Value (date e))) rs) (map Inr ws))"
proof -
  let ?M = "map_of (rev (List.map_filter (stored_pair env) feed))"
  have "set feed' = set feed" using p by (rule mset_eq_setD)
  then have t: "list_ex (fill_throws env) feed' = list_ex (fill_throws env) feed"
    by (simp add: list_ex_iff)
  have eq: "handleFetch_results env startIso feed' = handleFetch_results env startIso feed"
    unfolding results_eq t lookup_perm [OF p d] by (rule refl)
  have "subseq (map (\<lambda>e. formatDate env (Value (date e))) rs) (map Inr ws)"
    if w: "nineDatesFrom env startIso = Inr ws" and r: "handleFetch_results env startIso feed = Inr rs"
    for ws rs
  proof -
    from r w have rs: "rs = List.map_filter ?M ws"
      by (simp add: results_eq split: if_splits)
    have "map (\<lambda>e. formatDate env (Value (date e))) rs = map Inr (filter (\<lambda>w. ?M w \<noteq> None) ws)"
      unfolding rs by (rule results_dates) (use lookup_entry in blast)
    then show ?thesis by (simp add: subseq_map)
  qed
  with eq show ?thesis by blast
qed


text \<open>
  The last write wins. Let a date occur exactly once among the wanted dates, and let an
  entry with that normalized date be followed in the feed by no entry with the same
  normalized date. Then the results hold exactly one entry for that date, this one, and
  hold it exactly once.
\<close>

lemma last_entry_of_date_wins:
  assumes w: "nineDatesFrom env startIso = Inr ws"
    and once: "count_list ws k = 1"
    and e: "truthy (date e)" "formatDate env (Value (date e)) = Inr k"
    and later: "k \<notin> set (lookup_keys env ys)"
    and r: "handleFetch_results env startIso (xs @ JsonObject e # ys) = Inr rs"
  shows "filter (\<lambda>x. formatDate env (Value (date x)) = Inr k) rs = [e] \<and> count_list rs e = 1"
proof -
  let ?feed = "xs @ JsonObject e # ys"
  let ?M = "map_of (rev (List.map_filter (stored_pair env) ?feed))"
  have sp: "stored_pair env (JsonObject e) = Some (k, e)"
    using e by (simp add: stored_pair_simps)
  have "map_of (rev (List.map_filter (stored_pair env) ys)) k = None"
    using later by (simp add: lookup_keys_def map_of_eq_None_iff)
  then have M: "?M k = Some e"
    by (simp add: map_filter_app sp map_add_def)
  from r w have rs: "rs = List.map_filter ?M ws"
    by (simp add: results_eq split: if_splits)
  have nd: "formatDate env (Value (date x)) = Inr d" if "?M d = Some x" for d x
    using lookup_entry [OF that] by simp
  have "filter (\<lambda>x. formatDate env (Value (date x)) = Inr k) rs
        = List.map_filter ?M (filter (\<lambda>w. w = k) ws)"
    unfolding rs by (rule results_of_date) (rule nd)
  also have "\<dots> = [e]" by (simp add: filter_once [OF once] M)
  finally have f: "filter (\<lambda>x. formatDate env (Value (date x)) = Inr k) rs = [e]" .
  have "filter ((=) e) rs
        = filter ((=) e) (filter (\<lambda>x. formatDate env (Value (date x)) = Inr k) rs)"
    using e by (auto intro: filter_cong)
  then have "filter ((=) e) rs = [e]" by (simp add: f)
  then have "count_list rs e = 1"
    by (simp add: count_list_eq_length_filter)
  with f show ?thesis by simp
qed

text \<open>
  C4. The claim: of two entries sharing a date in the window the results hold exactly one,
  the later; and an entry matching one window date appears exactly once. The lookup does
  keep the later entry only, but where the window repeats a date the projection looks it
  up twice: on US Eastern time, from 2021-03-10, two loaded entries dated 2021-03-14 give
  the later one twice, and a single entry of that date is shown twice.
\<close>

theorem dst_two_entries_for_one_date:
  "handleFetch_results eastern_host ''2021-03-10''
      (fetchClassFeed eastern_host (Response 200 (JsonArray
         [JsonObject \<lparr>date = JStr ''2021-03-14'', rest = ''first''\<rparr>,
          JsonObject \<lparr>date = JStr ''2021-03-14'', rest = ''second''\<rparr>])))
     = Inr [\<lparr>date = JStr ''2021-03-14'', rest = ''second''\<rparr>,
            \<lparr>date = JStr ''2021-03-14'', rest = ''second''\<rparr>]
   \<and> handleFetch_results eastern_host ''2021-03-10''
      (fetchClassFeed eastern_host (Response 200 (JsonArray
         [JsonObject \<lparr>date = JStr ''2021-03-14'', rest = ''only''\<rparr>])))
     = Inr [\<lparr>date = JStr ''2021-03-14'', rest = ''only''\<rparr>,
            \<lparr>date = JStr ''2021-03-14'', rest = ''only''\<rparr>]"
  by code_simp

text \<open>
  The guard of the loop: an entry whose date is falsy (absent, \<^verbatim>\<open>null\<close>, the empty string,
  \<^verbatim>\<open>false\<close> or 0), in a feed handed to these lines as it is, is passed over; the results
  are those of the feed without it, and it is never among them.
\<close>

lemma falsy_date_skipped:
  assumes f: "\<not> truthy (date e)"
  shows "handleFetch_results env startIso (xs @ JsonObject e # ys)
           = handleFetch_results env startIso (xs @ ys)
    \<and> (\<forall>rs. handleFetch_results env startIso (xs @ JsonObject e # ys) = Inr rs \<longrightarrow> e \<notin> set rs)"
proof -
  have sp: "stored_pair env (JsonObject e) = None" and ft: "\<not> fill_throws env (JsonObject e)"
    using f by (simp_all add: stored_pair_simps fill_throws_simps)
  have M: "List.map_filter (stored_pair env) (xs @ JsonObject e # ys)
           = List.map_filter (stored_pair env) (xs @ ys)"
    by (simp add: map_filter_app sp)
  have T: "list_ex (fill_throws env) (xs @ JsonObject e # ys) = list_ex (fill_throws env) (xs @ ys)"
    by (simp add: ft)
  have eq: "handleFetch_results env startIso (xs @ JsonObject e # ys)
           = handleFetch_results env startIso (xs @ ys)"
    unfolding results_eq M T by (rule refl)
  have "e \<notin> set rs" if r: "handleFetch_results env startIso (xs @ JsonObject e # ys) = Inr rs" for rs
  proof
    assume "e \<in> set rs"
    with r obtain d where "map_of (rev (List.map_filter (stored_pair env) (xs @ JsonObject e # ys))) d = Some e"
      by (auto simp: results_eq set_map_filter split: if_splits sum.splits)
    from lookup_entry [OF this] f show False by simp
  qed
  with eq show ?thesis by blast
qed

section \<open>The loader\<close>

lemma unusable_simps:
  "unusable env JsonNull"
  "unusable env (JsonObject e) = isl (formatDate env (Value (date e)))"
  by (simp_all add: unusable_def)

lemma normalized_simps:
  "\<not> normalized env JsonNull y"
  "formatDate env (Value (date e)) = Inr s \<Longrightarrow>
     normalized env (JsonObject e) y = (y = JsonObject (e\<lparr>date := JStr s\<rparr>))"
  "formatDate env (Value (date e)) = Inl err \<Longrightarrow> \<not> normalized env (JsonObject e) y"
  by (simp_all add: normalized_def)

lemma normalize_items_throws:
  "list_ex (unusable env) json \<Longrightarrow> isl (normalize_items env json)"
proof (induction json)
  case Nil
  then show ?case by simp
next
  case (Cons x xs)
  then show ?case
    by (cases x) (auto simp: unusable_simps split: sum.splits)
qed

lemma normalize_items_ok:
  "\<not> list_ex (unusable env) json \<Longrightarrow>
   \<exists>out. normalize_items env json = Inr out \<and> list_all2 (normalized env) json out"
proof (induction json)
  case Nil
  then show ?case by simp
next
  case (Cons x xs)
  from Cons.prems obtain e s where x: "x = JsonObject e"
    and s: "formatDate env (Value (date e)) = Inr s"
    by (cases x; cases "formatDate env (Value (date (case x of JsonObject e \<Rightarrow> e)))")
       (auto simp: unusable_simps)
  from Cons obtain out where out: "normalize_items env xs = Inr out"
    "list_all2 (normalized env) xs out"
    by auto
  have "normalize_items env (x # xs) = Inr (JsonObject (e\<lparr>date := JStr s\<rparr>) # out)"
    by (simp add: x s out)
  moreover have "list_all2 (normalized env) (x # xs) (JsonObject (e\<lparr>date := JStr s\<rparr>) # out)"
    by (simp add: x out normalized_simps(2) [OF s])
  ultimately show ?case by blast
qed

lemma formatDate_shape:
  assumes "formatDate env x = Inr s"
  shows "is_ymd s \<or> hd s = CHR ''+'' \<or> hd s = CHR ''-''"
proof -
  from assms obtain t where x: "formatDate env x = formatDate env (DateObj (Some t))"
    by (cases x; cases "case x of DateObj dobj \<Rightarrow> dobj | Value v \<Rightarrow> new_Date env v")
       (auto simp: formatDate_def toISOString_def)
  show ?thesis
  proof (cases "0 \<le> YearFromTime t \<and> YearFromTime t \<le> 9999")
    case True
    then have s: "s = pad4 (YearFromTime t) @ ''-'' @ pad2 (MonthFromTime t + 1) @ ''-'' @ pad2 (DateFromTime t)"
      using formatDate_in_range [of t env] assms x by simp
    have "parse_ymd s = Some (YearFromTime t, MonthFromTime t + 1, DateFromTime t)"
      unfolding s using True by (intro parse_ymd_pad DateFromTime_valid) simp_all
    then have "is_ymd s"
      by (auto simp: parse_ymd_def is_ymd_def split: if_splits option.splits)
    then show ?thesis by simp
  next
    case False
    from formatDate_out_of_range [OF this, of env] assms x show ?thesis by auto
  qed
qed

lemma normalize_items_dates:
  "normalize_items env json = Inr out \<Longrightarrow> JsonObject e \<in> set out \<Longrightarrow>
   \<exists>s. date e = JStr s \<and> (is_ymd s \<or> hd s = CHR ''+'' \<or> hd s = CHR ''-'')"
proof (induction json arbitrary: out)
  case Nil
  then show ?case by simp
next
  case (Cons x xs)
  show ?case
  proof (cases x)
    case JsonNull
    with Cons.prems show ?thesis by simp
  next
    case (JsonObject e')
    with Cons.prems obtain s ys where s: "formatDate env (Value (date e')) = Inr s"
      and ys: "normalize_items env xs = Inr ys" and out: "out = JsonObject (e'\<lparr>date := JStr s\<rparr>) # ys"
      by (auto split: sum.splits)
    from Cons.prems(2) out consider "e = e'\<lparr>date := JStr s\<rparr>" | "JsonObject e \<in> set ys" by auto
    then show ?thesis
    proof cases
      case 1
      with formatDate_shape [OF s] show ?thesis by simp
    next
      case 2
      with Cons.IH [OF ys] show ?thesis by simp
    qed
  qed
qed

lemma fetchClassFeed_simps:
  "fetchClassFeed env NetworkFailure = []"
  "\<not> res_ok status \<Longrightarrow> fetchClassFeed env (Response status b) = []"
  "fetchClassFeed env (Response status InvalidJson) = []"
  "fetchClassFeed env (Response status NotArray) = []"
  "res_ok status \<Longrightarrow> fetchClassFeed env (Response status (JsonArray json)) =
     (case normalize_items env json of Inl err \<Rightarrow> [] | Inr feed \<Rightarrow> feed)"
  by (simp_all add: fetchClassFeed_def fetchClassFeed_try_def)

lemma fetchClassFeed_unusable:
  assumes "list_ex (unusable env) json"
  shows "fetchClassFeed env (Response status (JsonArray json)) = []"
proof (cases "res_ok status")
  case True
  from normalize_items_throws [OF assms] obtain err where "normalize_items env json = Inl err"
    by (cases "normalize_items env json") auto
  with True show ?thesis by (simp add: fetchClassFeed_simps)
next
  case False
  then show ?thesis by (simp add: fetchClassFeed_simps)
qed

text \<open>
  C5, as amended. The loader returns the empty feed and throws nothing when the request
  fails, when the status is no success, when the body is not JSON or not an array, and also
  when the array has an element that is \<^verbatim>\<open>null\<close> or whose date does not format. On a
  successful array response with no such element it returns every element with its date
  normalized. A normalized date is a string: YYYY-MM-DD, or for a year outside 0 to 9999
  the first ten characters of the signed six-digit form.
\<close>

theorem fetchClassFeed_outcomes:
  "fetchClassFeed env NetworkFailure = ([] :: 'a item list)
   \<and> (\<not> res_ok status \<longrightarrow> fetchClassFeed env (Response status b) = ([] :: 'a item list))
   \<and> fetchClassFeed env (Response status InvalidJson) = ([] :: 'a item list)
   \<and> fetchClassFeed env (Response status NotArray) = ([] :: 'a item list)
   \<and> (list_ex (unusable env) json \<longrightarrow>
        fetchClassFeed env (Response status (JsonArray json)) = ([] :: 'a item list))
   \<and> (res_ok status \<and> \<not> list_ex (unusable env) json \<longrightarrow>
        list_all2 (normalized env) json (fetchClassFeed env (Response status (JsonArray json))))
   \<and> (\<forall>e. JsonObject e \<in> set (fetchClassFeed env (r :: 'a fetched)) \<longrightarrow>
        (\<exists>s. date e = JStr s \<and> (is_ymd s \<or> hd s = CHR ''+'' \<or> hd s = CHR ''-'')))"
proof -
  have ok: "list_all2 (normalized env) json (fetchClassFeed env (Response status (JsonArray json)))"
    if "res_ok status" "\<not> list_ex (unusable env) json"
    using normalize_items_ok [OF that(2)] that(1) by (auto simp: fetchClassFeed_simps)
  have dates: "\<exists>s. date e = JStr s \<and> (is_ymd s \<or> hd s = CHR ''+'' \<or> hd s = CHR ''-'')"
    if "JsonObject e \<in> set (fetchClassFeed env r)" for e :: "'a entry"
  proof -
    from that obtain json out where "Inr out = normalize_items env json"
      "JsonObject e \<in> set out"
      by (auto simp: fetchClassFeed_def fetchClassFeed_try_def
          split: fetched.splits body.splits sum.splits if_splits)
    then show ?thesis using normalize_items_dates [of env json out e] by simp
  qed
  show ?thesis
    using ok dates fetchClassFeed_unusable [of env json status]
    by (simp add: fetchClassFeed_simps)
qed

theorem fetchClassFeed_outcomes_witness:
  "\<not> res_ok 404
   \<and> fetchClassFeed utc_host (Response 404 (JsonArray [JsonObject \<lparr>date = JStr ''2021-06-20'', rest = ''a''\<rparr>])) = []
   \<and> list_ex (unusable utc_host) [JsonObject \<lparr>date = JUndefined, rest = ''a''\<rparr>]
   \<and> fetchClassFeed utc_host (Response 200 (JsonArray [JsonObject \<lparr>date = JUndefined, rest = ''a''\<rparr>])) = []
   \<and> res_ok 200
   \<and> \<not> list_ex (unusable utc_host) [JsonObject \<lparr>date = JNum 1624199999000, rest = ''a''\<rparr>]
   \<and> list_all2 (normalized utc_host) [JsonObject \<lparr>date = JNum 1624199999000, rest = ''a''\<rparr>]
        (fetchClassFeed utc_host (Response 200 (JsonArray [JsonObject \<lparr>date = JNum 1624199999000, rest = ''a''\<rparr>])))
   \<and> fetchClassFeed utc_host (Response 200 (JsonArray [JsonObject \<lparr>date = JNum 1624199999000, rest = ''a''\<rparr>]))
      = [JsonObject \<lparr>date = JStr ''2021-06-20'', rest = ''a''\<rparr>]"
proof -
  let ?a = "[JsonObject \<lparr>date = JStr ''2021-06-20'', rest = ''a''\<rparr>]"
  let ?u = "[JsonObject \<lparr>date = JUndefined, rest = ''a''\<rparr>]"
  let ?n = "[JsonObject \<lparr>date = JNum 1624199999000, rest = ''a''\<rparr>]"
  have h1: "\<not> res_ok 404" by (simp add: res_ok_def)
  have h2: "list_ex (unusable utc_host) ?u" by code_simp
  have h3: "res_ok 200" by (simp add: res_ok_def)
  have h4: "\<not> list_ex (unusable utc_host) ?n" by code_simp
  have v: "fetchClassFeed utc_host (Response 200 (JsonArray ?n))
      = [JsonObject \<lparr>date = JStr ''2021-06-20'', rest = ''a''\<rparr>]"
    by code_simp
  have c1: "fetchClassFeed utc_host (Response 404 (JsonArray ?a)) = []"
    using fetchClassFeed_outcomes [of utc_host 404 "JsonArray ?a"] h1 by blast
  have c2: "fetchClassFeed utc_host (Response 200 (JsonArray ?u)) = []"
    using fetchClassFeed_outcomes [of utc_host 200 _ ?u] h2 by blast
  have c3: "list_all2 (normalized utc_host) ?n (fetchClassFeed utc_host (Response 200 (JsonArray ?n)))"
    using fetchClassFeed_outcomes [of utc_host 200 _ ?n] h3 h4 by blast
  from h1 c1 h2 c2 h3 h4 c3 v show ?thesis by (simp only: simp_thms)
qed

text \<open>
  The claim as stated promises every element of a successful array response. One
  unparseable date empties the whole feed.
\<close>

theorem fetchClassFeed_drops_whole_feed_counterexample:
  "res_ok 200
   \<and> fetchClassFeed utc_host
        (Response 200 (JsonArray
          [JsonObject \<lparr>date = JStr ''2021-06-20'', rest = ''good''\<rparr>,
           JsonObject \<lparr>date = JStr ''not a date'', rest = ''bad''\<rparr>]))
      = []"
  by code_simp

text \<open>
  C6, as amended. An entry whose date is unparseable is not set aside alone: in the loader
  it makes the whole feed empty, and in \<^verbatim>\<open>handleFetch\<close>, if its date is truthy, it makes the
  building of the results throw a RangeError, so that no entry is shown.
\<close>

theorem unparseable_date_drops_feed:
  assumes "JsonObject e \<in> set feed" and "formatDate env (Value (date e)) = Inl err"
  shows "fetchClassFeed env (Response status (JsonArray feed)) = []
    \<and> (truthy (date e) \<longrightarrow> handleFetch_results env startIso feed = Inl RangeError)"
proof -
  have "unusable env (JsonObject e)" using assms(2) by (simp add: unusable_simps)
  with assms(1) have "list_ex (unusable env) feed" by (auto simp: list_ex_iff)
  then have a: "fetchClassFeed env (Response status (JsonArray feed)) = []"
    by (rule fetchClassFeed_unusable)
  have "handleFetch_results env startIso feed = Inl RangeError" if "truthy (date e)"
  proof -
    have "fill_throws env (JsonObject e)" using that assms(2) by (simp add: fill_throws_simps)
    with assms(1) have "list_ex (fill_throws env) feed" by (auto simp: list_ex_iff)
    then show ?thesis by (simp add: results_eq)
  qed
  with a show ?thesis by simp
qed

theorem unparseable_date_drops_feed_witness:
  "JsonObject \<lparr>date = JStr ''not a date'', rest = ''bad''\<rparr>
     \<in> set [JsonObject \<lparr>date = JStr ''2021-06-20'', rest = ''good''\<rparr>,
            JsonObject \<lparr>date = JStr ''not a date'', rest = ''bad''\<rparr>]
   \<and> formatDate utc_host (Value (date \<lparr>date = JStr ''not a date'', rest = ''bad''\<rparr>)) = Inl RangeError
   \<and> truthy (date \<lparr>date = JStr ''not a date'', rest = ''bad''\<rparr>)
   \<and> fetchClassFeed utc_host (Response 200 (JsonArray
         [JsonObject \<lparr>date = JStr ''2021-06-20'', rest = ''good''\<rparr>,
          JsonObject \<lparr>date = JStr ''not a date'', rest = ''bad''\<rparr>])) = []
   \<and> handleFetch_results utc_host ''2021-06-20''
         [JsonObject \<lparr>date = JStr ''2021-06-20'', rest = ''good''\<rparr>,
          JsonObject \<lparr>date = JStr ''not a date'', rest = ''bad''\<rparr>] = Inl RangeError"
proof -
  let ?bad = "\<lparr>date = JStr ''not a date'', rest = ''bad''\<rparr>"
  let ?feed = "[JsonObject \<lparr>date = JStr ''2021-06-20'', rest = ''good''\<rparr>, JsonObject ?bad]"
  have h1: "JsonObject ?bad \<in> set ?feed" by simp
  have h2: "formatDate utc_host (Value (date ?bad)) = Inl RangeError" by code_simp
  have h3: "truthy (date ?bad)" by simp
  note t = unparseable_date_drops_feed [OF h1 h2, of 200 "''2021-06-20''"]
  from t have c1: "fetchClassFeed utc_host (Response 200 (JsonArray ?feed)) = []"
    by (rule conjunct1)
  from t h3 have c2: "handleFetch_results utc_host ''2021-06-20'' ?feed = Inl RangeError"
    by blast
  from h1 h2 h3 c1 c2 show ?thesis by (simp only: simp_thms)
qed

text \<open>
  The claim as stated keeps the well-formed entries. The entry of 2021-06-20 is the result
  when it is alone; with an unparseable entry beside it there is an error and no result, and
  through the loader the result is empty.
\<close>

theorem entry_level_degradation_counterexample:
  "handleFetch_results utc_host ''2021-06-20''
     [JsonObject \<lparr>date = JStr ''2021-06-20'', rest = ''good''\<rparr>]
     = Inr [\<lparr>date = JStr ''2021-06-20'', rest = ''good''\<rparr>]
   \<and> handleFetch_results utc_host ''2021-06-20''
     [JsonObject \<lparr>date = JStr ''2021-06-20'', rest = ''good''\<rparr>,
      JsonObject \<lparr>date = JStr ''not a date'', rest = ''bad''\<rparr>]
     = Inl RangeError
   \<and> handleFetch_results utc_host ''2021-06-20''
     (fetchClassFeed utc_host (Response 200 (JsonArray
       [JsonObject \<lparr>date = JStr ''2021-06-20'', rest = ''good''\<rparr>,
        JsonObject \<lparr>date = JStr ''not a date'', rest = ''bad''\<rparr>])))
     = Inr []"
  by code_simp










text \<open>
  (A \<^verbatim>\<open>null\<close> date is no date either, but \<^verbatim>\<open>new Date(null)\<close> is the epoch: the loader
  gives such an entry the date 1970-01-01, and a window around that day shows it.)
\<close>

lemma null_date_is_epoch_example:
  "handleFetch_results utc_host ''1970-01-01''
      (fetchClassFeed utc_host (Response 200 (JsonArray
         [JsonObject \<lparr>date = JNull, rest = ''x''\<rparr>])))
     = Inr [\<lparr>date = JStr ''1970-01-01'', rest = ''x''\<rparr>]"
  by code_simp

section \<open>The button while the request is outstanding\<close>

lemma setLoading_simps:
  "loadingEl p = Some h \<Longrightarrow> getImageBtn p = Some b \<Longrightarrow>
     setLoading v p = p\<lparr>loadingEl := Some (\<not> v), getImageBtn := Some (b\<lparr>disabled := v, loading_class := v\<rparr>)\<rparr>"
  "loadingEl p = None \<Longrightarrow> setLoading v p = p"
  "getImageBtn p = None \<Longrightarrow> setLoading v p = p"
  by (simp_all add: setLoading_def split: option.splits)

lemma renderGallery_keeps:
  "renderGallery items p = Inr p' \<Longrightarrow> loadingEl p' = loadingEl p \<and> getImageBtn p' = getImageBtn p"
  by (auto simp: renderGallery_def split: option.splits if_splits)

text \<open>
  C7, as amended. On a page that has the loading element and the button, with a start date
  chosen, the handler suspends with the button disabled and returns with the button
  enabled, whatever the request ends in and whether or not the results or the rendering
  throw.
\<close>

theorem button_disabled_while_loading:
  assumes l: "loadingEl p = Some h" and b: "getImageBtn p = Some b"
    and s: "startDateInput p = Some startIso" "startIso \<noteq> []"
  shows "\<exists>p1 p2. handleFetch env r p = [p1, p2]
    \<and> map_option disabled (getImageBtn p1) = Some True
    \<and> map_option disabled (getImageBtn p2) = Some False"
proof -
  define p1 where "p1 = setLoading True p"
  have p1: "loadingEl p1 = Some False" "getImageBtn p1 = Some (b\<lparr>disabled := True, loading_class := True\<rparr>)"
    by (simp_all add: p1_def setLoading_simps(1) [OF l b])
  have beg: "handleFetch_begin p = Awaiting startIso p1"
    by (simp add: handleFetch_begin_def s p1_def)
  define q where "q = (case (case handleFetch_results env startIso (fetchClassFeed env r) of
                 Inl err \<Rightarrow> Inl err
               | Inr results \<Rightarrow> renderGallery results p1) of
              Inl err \<Rightarrow> p1\<lparr>alerts := alerts p1 @ [''An error occurred while fetching images. See the console for details.'']\<rparr>
            | Inr p' \<Rightarrow> p')"
  have q: "loadingEl q = loadingEl p1 \<and> getImageBtn q = getImageBtn p1"
    unfolding q_def by (auto split: sum.splits dest: renderGallery_keeps)
  have res: "handleFetch_resume env startIso (fetchClassFeed env r) p1 = setLoading False q"
    by (simp add: handleFetch_resume_def q_def Let_def)
  have "map_option disabled (getImageBtn (setLoading False q)) = Some False"
    using q p1 by (simp add: setLoading_simps(1) [of q False "b\<lparr>disabled := True, loading_class := True\<rparr>"])
  moreover have "handleFetch env r p = [p1, setLoading False q]"
    by (simp add: handleFetch_def beg res)
  ultimately show ?thesis using p1 by simp
qed

theorem button_disabled_while_loading_witness:
  "loadingEl \<lparr>startDateInput = Some ''2021-06-20'', loadingEl = Some True,
       getImageBtn = Some \<lparr>disabled = False, loading_class = False\<rparr>,
       galleryEl = Some (Untouched :: string gallery), alerts = []\<rparr> = Some True
   \<and> map (map_option disabled \<circ> getImageBtn)
        (handleFetch utc_host (NetworkFailure :: string fetched)
          \<lparr>startDateInput = Some ''2021-06-20'', loadingEl = Some True,
           getImageBtn = Some \<lparr>disabled = False, loading_class = False\<rparr>,
           galleryEl = Some Untouched, alerts = []\<rparr>)
      = [Some True, Some False]"
proof -
  let ?p = "\<lparr>startDateInput = Some ''2021-06-20'', loadingEl = Some True,
       getImageBtn = Some \<lparr>disabled = False, loading_class = False\<rparr>,
       galleryEl = Some (Untouched :: string gallery), alerts = []\<rparr>"
  have h: "loadingEl ?p = Some True" "getImageBtn ?p = Some \<lparr>disabled = False, loading_class = False\<rparr>"
    "startDateInput ?p = Some ''2021-06-20''" "''2021-06-20'' \<noteq> []"
    by simp_all
  from button_disabled_while_loading [OF h, of utc_host NetworkFailure]
  obtain p1 p2 where "handleFetch utc_host NetworkFailure ?p = [p1, p2]"
    "map_option disabled (getImageBtn p1) = Some True"
    "map_option disabled (getImageBtn p2) = Some False"
    by blast
  then have "map (map_option disabled \<circ> getImageBtn) (handleFetch utc_host NetworkFailure ?p)
      = [Some True, Some False]"
    by simp
  with h(1) show ?thesis by (simp only: simp_thms)
qed

text \<open>
  The claim as stated speaks of every execution with a valid start date. \<^verbatim>\<open>setLoading\<close>
  returns at once when the page has no loading element: the button is then not disabled
  while the request is outstanding.
\<close>

theorem button_without_loading_element_counterexample:
  "startDateInput \<lparr>startDateInput = Some ''2021-06-20'', loadingEl = None,
       getImageBtn = Some \<lparr>disabled = False, loading_class = False\<rparr>,
       galleryEl = Some (Untouched :: string gallery), alerts = []\<rparr> = Some ''2021-06-20''
   \<and> map (map_option disabled \<circ> getImageBtn)
        (handleFetch utc_host (NetworkFailure :: string fetched)
          \<lparr>startDateInput = Some ''2021-06-20'', loadingEl = None,
           getImageBtn = Some \<lparr>disabled = False, loading_class = False\<rparr>,
           galleryEl = Some Untouched, alerts = []\<rparr>)
      = [Some False, Some False]"
  by code_simp

section \<open>The window on a host with a steady offset\<close>

lemma Day_TimeWithinDay: "Day t * msPerDay + TimeWithinDay t = t"
  by (simp add: Day_def TimeWithinDay_def)

lemma setDate_steady:
  assumes "ltza_local env (LocalTime env t + i * msPerDay) = ltza_utc env t"
  shows "setDate env (Some t) (map_option (\<lambda>g. g + i) (getDate env (Some t)))
         = TimeClip (t + i * msPerDay)"
proof -
  let ?tl = "LocalTime env t"
  have n: "MakeDate (MakeDay (YearFromTime ?tl) (MonthFromTime ?tl) (DateFromTime ?tl + i))
             (TimeWithinDay ?tl) = ?tl + i * msPerDay"
    unfolding MakeDay_from_time MakeDate_def
    using Day_TimeWithinDay [of ?tl] by (simp add: algebra_simps)
  have "UTC env (?tl + i * msPerDay) = t + i * msPerDay"
    using assms by (simp add: UTC_def LocalTime_def)
  then show ?thesis by (simp add: setDate_def getDate_def Let_def n)
qed

lemma formatDate_DateObj_host: "formatDate env (DateObj d) = formatDate env' (DateObj d)"
  by (simp add: formatDate_def)

lemma nineDates_loop_steady:
  assumes "\<And>j. j < 9 \<Longrightarrow> ltza_local env (LocalTime env t + int j * msPerDay) = ltza_utc env t"
  shows "nineDates_loop env (Some t) i arr = nineDates_loop utc_host (Some t) i arr"
proof (induction "9 - i" arbitrary: i arr)
  case 0
  then have "\<not> i < 9" by simp
  then show ?case
    by (simp add: nineDates_loop.simps [of env "Some t" i arr]
        nineDates_loop.simps [of utc_host "Some t" i arr])
next
  case (Suc n)
  then have i: "i < 9" and n: "n = 9 - (i + 1)" by simp_all
  have u: "ltza_local utc_host (LocalTime utc_host t + int i * msPerDay) = ltza_utc utc_host t"
    by (simp add: utc_host_def)
  have d: "setDate env (Some t) (map_option (\<lambda>g. g + int i) (getDate env (Some t)))
         = setDate utc_host (Some t) (map_option (\<lambda>g. g + int i) (getDate utc_host (Some t)))"
    by (simp only: setDate_steady [OF assms [OF i]] setDate_steady [OF u])
  show ?case
    unfolding nineDates_loop.simps [of env "Some t" i arr]
      nineDates_loop.simps [of utc_host "Some t" i arr] Let_def d
      formatDate_DateObj_host [of env _ utc_host]
    using i Suc.hyps(1) [OF n] by (simp split: sum.splits)
qed

lemma nineDatesFrom_steady:
  assumes p: "parse_ymd startIso = Some (y, m, d)" and s: "steady_window env startIso"
  shows "nineDatesFrom env startIso = nineDatesFrom utc_host startIso"
proof -
  let ?t = "MakeDate (MakeDay y (m - 1) d) 0"
  have t: "new_Date env (JStr startIso) = Some ?t" "new_Date utc_host (JStr startIso) = Some ?t"
    by (rule new_Date_ymd [OF p])+
  have "ltza_local env (LocalTime env ?t + int j * msPerDay) = ltza_utc env ?t" if "j < 9" for j
    using s that unfolding steady_window_def t by (simp add: list_all_iff)
  then show ?thesis
    unfolding nineDatesFrom_def t by (rule nineDates_loop_steady)
qed

lemma DayFromMonth_next:
  assumes m: "1 \<le> m" "m < 12" and l: "l = (if DaysInYear y = 366 then 1 else 0)"
  shows "DayFromMonth m l = DayFromMonth (m - 1) l + DaysInMonth y m"
proof -
  have dim: "DaysInMonth y 2 = 28 + l" by (simp add: DaysInMonth_def l)
  from m have "1 \<le> m" "m \<le> 12" by simp_all
  from month_cases [OF this] m(2) dim show ?thesis
    by (elim disjE) (simp_all add: DayFromMonth_def DaysInMonth_def)
qed

lemma civil_MakeDay:
  "valid_ymd y m d \<Longrightarrow> civil (MakeDate (MakeDay y (m - 1) d) 0) = (y, m, d)"
  by (simp add: civil_def civil_of_MakeDay)

lemma civil_Day: "Day t = Day t' \<Longrightarrow> civil t = civil t'"
  by (simp add: civil_def YearFromTime_def MonthFromTime_def DateFromTime_def
      DayWithinYear_def InLeapYear_def)

lemma Day_add_day: "Day (t + msPerDay) = Day t + 1"
  by (simp add: Day_def msPerDay_def)

lemma MakeDay_simple:
  "0 \<le> mn \<Longrightarrow> mn \<le> 11 \<Longrightarrow>
   MakeDay y mn d = DayFromYear y + DayFromMonth mn (if DaysInYear y = 366 then 1 else 0) + d - 1"
  by (simp add: MakeDay_def)

lemma civil_next: "civil (t + msPerDay) = next_day (civil t)"
proof -
  define y m d where "y = YearFromTime t" and "m = MonthFromTime t + 1" and "d = DateFromTime t"
  define l :: int where "l = (if DaysInYear y = 366 then 1 else 0)"
  have c: "civil t = (y, m, d)" by (simp add: civil_def y_def m_def d_def)
  have v: "valid_ymd y m d" unfolding y_def m_def d_def by (rule DateFromTime_valid)
  then have vm: "1 \<le> m" "m \<le> 12" and vd: "1 \<le> d" "d \<le> DaysInMonth y m"
    by (simp_all add: valid_ymd_def)
  have day: "Day t = DayFromYear y + DayFromMonth (m - 1) l + d - 1"
    using MakeDay_from_time [of t 0] vm
    by (simp add: y_def [symmetric] m_def d_def [symmetric] MakeDay_simple l_def)
  have to: "civil (t + msPerDay) = (y', m', d')"
    if "valid_ymd y' m' d'" "MakeDay y' (m' - 1) d' = Day t + 1" for y' m' d'
  proof -
    have "Day (t + msPerDay) = Day (MakeDate (MakeDay y' (m' - 1) d') 0)"
      by (simp add: Day_add_day Day_MakeDate that(2))
    then have "civil (t + msPerDay) = civil (MakeDate (MakeDay y' (m' - 1) d') 0)"
      by (rule civil_Day)
    then show ?thesis by (simp add: civil_MakeDay [OF that(1)])
  qed
  consider "d < DaysInMonth y m" | "d = DaysInMonth y m" "m < 12" | "d = DaysInMonth y m" "m = 12"
    using vd vm by linarith
  then show ?thesis
  proof cases
    case 1
    have "valid_ymd y m (d + 1)" using vm vd 1 by (simp add: valid_ymd_def)
    moreover have "MakeDay y (m - 1) (d + 1) = Day t + 1"
      using vm by (simp add: MakeDay_simple day l_def)
    ultimately have "civil (t + msPerDay) = (y, m, d + 1)" by (rule to)
    then show ?thesis using 1 by (simp add: c next_day_def)
  next
    case 2
    have "valid_ymd y (m + 1) 1" using vm 2 by (simp add: valid_ymd_def DaysInMonth_def)
    moreover have "MakeDay y (m + 1 - 1) 1 = Day t + 1"
      using vm 2 DayFromMonth_next [OF vm(1) 2(2) l_def]
      by (simp add: MakeDay_simple day l_def [symmetric])
    ultimately have "civil (t + msPerDay) = (y, m + 1, 1)" by (rule to)
    then show ?thesis using 2 by (simp add: c next_day_def)
  next
    case 3
    have d31: "d = 31" using 3 by (simp add: DaysInMonth_def)
    have "valid_ymd (y + 1) 1 1" by (simp add: valid_ymd_def DaysInMonth_def)
    moreover have "MakeDay (y + 1) (1 - 1) 1 = Day t + 1"
      using leap_flag [of y]
      by (simp add: MakeDay_simple DayFromMonth_def day 3(2) d31 DayFromYear_Suc l_def [symmetric])
    ultimately have "civil (t + msPerDay) = (y + 1, 1, 1)" by (rule to)
    then show ?thesis using 3 by (simp add: c next_day_def)
  qed
qed

lemma civil_add_days: "civil (t + int i * msPerDay) = (next_day ^^ i) (civil t)"
proof (induction i)
  case 0
  show ?case by simp
next
  case (Suc i)
  have "t + int (Suc i) * msPerDay = (t + int i * msPerDay) + msPerDay"
    by (simp add: algebra_simps)
  then have "civil (t + int (Suc i) * msPerDay) = next_day (civil (t + int i * msPerDay))"
    by (simp only: civil_next)
  then show ?case by (simp add: Suc)
qed

lemma year_after_days:
  assumes "0 \<le> k" "k \<le> 8"
  shows "YearFromTime t \<le> YearFromTime (t + k * msPerDay)
       \<and> YearFromTime (t + k * msPerDay) \<le> YearFromTime t + 1"
proof -
  let ?t' = "t + k * msPerDay"
  have d: "Day ?t' = Day t + k" by (simp add: Day_def msPerDay_def)
  note b = YearFromTime_bounds [of t] and b' = YearFromTime_bounds [of ?t']
  have lo: "YearFromTime t \<le> YearFromTime ?t'"
  proof (rule ccontr)
    assume "\<not> ?thesis"
    then have "YearFromTime ?t' + 1 \<le> YearFromTime t" by simp
    from DayFromYear_mono [OF this] b b' d assms show False by linarith
  qed
  have hi: "YearFromTime ?t' \<le> YearFromTime t + 1"
  proof (rule ccontr)
    assume "\<not> ?thesis"
    then have "YearFromTime t + 1 + 1 \<le> YearFromTime ?t'" by simp
    from DayFromYear_mono [OF this] DayFromYear_Suc [of "YearFromTime t + 1"]
      DaysInYear_pos [of "YearFromTime t + 1"] b b' d assms
    show False by linarith
  qed
  from lo hi show ?thesis ..
qed

lemma formatDate_civil:
  assumes "0 \<le> YearFromTime t" "YearFromTime t \<le> 9999"
  shows "formatDate env (DateObj (Some t)) = Inr (ymd_string (civil t))"
  using formatDate_in_range [OF assms] by (simp add: ymd_string_def civil_def)

lemma TimeClip_in_years:
  assumes "0 \<le> YearFromTime t" "YearFromTime t \<le> 9999"
  shows "TimeClip t = Some t"
proof -
  from year_range_time [OF assms] have d: "- 719528 \<le> Day t" "Day t < 2932897" by simp_all
  have "Day t * msPerDay \<le> t" "t < (Day t + 1) * msPerDay"
    unfolding Day_def msPerDay_def by (simp_all add: algebra_simps)
  moreover have "- 719528 * msPerDay \<le> Day t * msPerDay" "(Day t + 1) * msPerDay \<le> 2932897 * msPerDay"
    using d by (simp_all add: msPerDay_def)
  ultimately have "- 719528 * msPerDay \<le> t" "t < 2932897 * msPerDay" by linarith+
  then show ?thesis by (simp add: TimeClip_def msPerDay_def)
qed

lemma nineDates_loop_days:
  assumes steady: "\<And>j. j < 9 \<Longrightarrow> ltza_local env (LocalTime env t + int j * msPerDay) = ltza_utc env t"
    and yr: "0 \<le> YearFromTime t" "YearFromTime t \<le> 9998"
  shows "nineDates_loop env (Some t) i arr
       = Inr (arr @ map (\<lambda>j. ymd_string ((next_day ^^ j) (civil t))) [i..<9])"
proof (induction "9 - i" arbitrary: i arr)
  case 0
  then have "\<not> i < 9" by simp
  then show ?case by (simp add: nineDates_loop.simps [of env "Some t" i arr])
next
  case (Suc n)
  then have i: "i < 9" and n: "n = 9 - (i + 1)" by simp_all
  let ?t' = "t + int i * msPerDay"
  have y': "0 \<le> YearFromTime ?t'" "YearFromTime ?t' \<le> 9999"
    using year_after_days [of "int i" t] i yr by simp_all
  have d: "setDate env (Some t) (map_option (\<lambda>g. g + int i) (getDate env (Some t))) = Some ?t'"
    by (simp only: setDate_steady [OF steady [OF i]] TimeClip_in_years [OF y'])
  have f: "formatDate env (DateObj (Some ?t')) = Inr (ymd_string ((next_day ^^ i) (civil t)))"
    by (simp only: formatDate_civil [OF y'] civil_add_days)
  have "nineDates_loop env (Some t) i arr
        = nineDates_loop env (Some t) (i + 1) (arr @ [ymd_string ((next_day ^^ i) (civil t))])"
    unfolding nineDates_loop.simps [of env "Some t" i arr] Let_def d f using i by simp
  also have "\<dots> = Inr ((arr @ [ymd_string ((next_day ^^ i) (civil t))])
        @ map (\<lambda>j. ymd_string ((next_day ^^ j) (civil t))) [i + 1..<9])"
    by (rule Suc.hyps(1) [OF n])
  also have "\<dots> = Inr (arr @ map (\<lambda>j. ymd_string ((next_day ^^ j) (civil t))) [i..<9])"
    using i by (simp add: upt_conv_Cons)
  finally show ?case .
qed

text \<open>
  On a host with a steady offset the window is what the specification asks for: the start
  date and the eight calendar dates after it, in order, with the rollover of month and
  year, for start years up to 9998 (so that the year stays within four digits).
\<close>

lemma nineDatesFrom_consecutive:
  assumes p: "parse_ymd startIso = Some (y, m, d)" and s: "steady_window env startIso"
    and y: "y \<le> 9998"
  shows "nineDatesFrom env startIso
       = Inr (map (\<lambda>i. ymd_string ((next_day ^^ i) (y, m, d))) [0..<9])"
proof -
  let ?t = "MakeDate (MakeDay y (m - 1) d) 0"
  from parse_ymd_string [OF p] have y0: "0 \<le> y" and v: "valid_ymd y m d" by simp_all
  have t: "new_Date env (JStr startIso) = Some ?t" by (rule new_Date_ymd [OF p])
  have c: "civil ?t = (y, m, d)" by (rule civil_MakeDay [OF v])
  then have yr: "0 \<le> YearFromTime ?t" "YearFromTime ?t \<le> 9998"
    using y0 y by (simp_all add: civil_def)
  have st: "ltza_local env (LocalTime env ?t + int j * msPerDay) = ltza_utc env ?t" if "j < 9" for j
    using s that unfolding steady_window_def t by (simp add: list_all_iff)
  show ?thesis
    unfolding nineDatesFrom_def t
    using nineDates_loop_days [of env ?t 0 "[]", OF st yr] by (simp add: c)
qed

lemma leap_february_example:
  "map (\<lambda>i. ymd_string ((next_day ^^ i) (2024, 2, 29))) [0..<9] =
     [''2024-02-29'', ''2024-03-01'', ''2024-03-02'', ''2024-03-03'', ''2024-03-04'',
      ''2024-03-05'', ''2024-03-06'', ''2024-03-07'', ''2024-03-08'']"
  by code_simp

lemma count_list_distinct: "distinct xs \<Longrightarrow> x \<in> set xs \<Longrightarrow> count_list xs x = 1"
  by (induction xs) (auto simp: count_list_0_iff)

lemma civil_eq_Day: "civil t = civil t' \<Longrightarrow> Day t = Day t'"
  using MakeDay_from_time [of t 0] MakeDay_from_time [of t' 0] by (simp add: civil_def)

lemma parse_ymd_string_civil:
  assumes "0 \<le> YearFromTime t" "YearFromTime t \<le> 9999"
  shows "parse_ymd (ymd_string (civil t)) = Some (civil t)"
proof -
  have "parse_ymd (pad4 (YearFromTime t) @ ''-'' @ pad2 (MonthFromTime t + 1) @ ''-''
          @ pad2 (DateFromTime t))
        = Some (YearFromTime t, MonthFromTime t + 1, DateFromTime t)"
    using assms by (intro parse_ymd_pad DateFromTime_valid) simp_all
  then show ?thesis unfolding ymd_string_def civil_def prod.case .
qed

lemma ymd_string_civil_inj:
  assumes r: "0 \<le> YearFromTime t" "YearFromTime t \<le> 9999"
    and r': "0 \<le> YearFromTime t'" "YearFromTime t' \<le> 9999"
    and e: "ymd_string (civil t) = ymd_string (civil t')"
  shows "Day t = Day t'"
proof -
  from e have "parse_ymd (ymd_string (civil t)) = parse_ymd (ymd_string (civil t'))"
    by (rule arg_cong)
  then have "Some (civil t) = Some (civil t')"
    by (simp only: parse_ymd_string_civil [OF r] parse_ymd_string_civil [OF r'])
  then have "civil t = civil t'" by (simp only: option.inject)
  then show ?thesis by (rule civil_eq_Day)
qed

lemma consecutive_strings_inj:
  assumes v: "valid_ymd y m d" and y: "0 \<le> y" "y \<le> 9998"
    and i: "i < 9" and j: "j < 9"
    and e: "ymd_string ((next_day ^^ i) (y, m, d)) = ymd_string ((next_day ^^ j) (y, m, d))"
  shows "i = j"
proof -
  let ?t = "MakeDate (MakeDay y (m - 1) d) 0"
  have c: "civil ?t = (y, m, d)" by (rule civil_MakeDay [OF v])
  then have yt: "YearFromTime ?t = y" by (simp add: civil_def)
  have ri: "0 \<le> YearFromTime (?t + int i * msPerDay)" "YearFromTime (?t + int i * msPerDay) \<le> 9999"
    using year_after_days [of "int i" ?t] i y yt by simp_all
  have rj: "0 \<le> YearFromTime (?t + int j * msPerDay)" "YearFromTime (?t + int j * msPerDay) \<le> 9999"
    using year_after_days [of "int j" ?t] j y yt by simp_all
  from e have "ymd_string (civil (?t + int i * msPerDay)) = ymd_string (civil (?t + int j * msPerDay))"
    by (simp only: civil_add_days c)
  from ymd_string_civil_inj [OF ri rj this]
  have "Day ?t + int i = Day ?t + int j" by (simp add: Day_def msPerDay_def)
  then show ?thesis by simp
qed

text \<open>On a host with a steady offset the wanted dates are pairwise distinct.\<close>

lemma nineDatesFrom_steady_distinct:
  assumes p: "parse_ymd startIso = Some (y, m, d)" and s: "steady_window env startIso"
    and y: "y \<le> 9998" and w: "nineDatesFrom env startIso = Inr ws"
  shows "distinct ws"
proof -
  from parse_ymd_string [OF p] have y0: "0 \<le> y" and v: "valid_ymd y m d" by simp_all
  from nineDatesFrom_consecutive [OF p s y] w
  have ws: "ws = map (\<lambda>i. ymd_string ((next_day ^^ i) (y, m, d))) [0..<9]" by simp
  have "inj_on (\<lambda>i. ymd_string ((next_day ^^ i) (y, m, d))) (set [0..<9])"
    by (rule inj_onI) (use consecutive_strings_inj [OF v y0 y] in simp)
  then show ?thesis unfolding ws by (simp add: distinct_map)
qed

text \<open>
  So on such a host the last entry of a date is the one entry shown for it, once, with no
  condition on the window.
\<close>

lemma last_entry_of_date_wins_steady:
  assumes p: "parse_ymd startIso = Some (y, m, d)" and s: "steady_window env startIso"
    and y: "y \<le> 9998"
    and w: "nineDatesFrom env startIso = Inr ws" and k: "k \<in> set ws"
    and e: "truthy (date e)" "formatDate env (Value (date e)) = Inr k"
    and later: "k \<notin> set (lookup_keys env zs)"
    and r: "handleFetch_results env startIso (xs @ JsonObject e # zs) = Inr rs"
  shows "filter (\<lambda>x. formatDate env (Value (date x)) = Inr k) rs = [e] \<and> count_list rs e = 1"
proof -
  have "count_list ws k = 1"
    by (rule count_list_distinct [OF nineDatesFrom_steady_distinct [OF p s y w] k])
  from last_entry_of_date_wins [OF w this e later r] show ?thesis .
qed

text \<open>
  And the results ascend: their normalized dates are the strings of the start date's
  successors at strictly increasing distances.
\<close>

lemma results_ascend_steady:
  assumes p: "parse_ymd startIso = Some (y, m, d)" and s: "steady_window env startIso"
    and y: "y \<le> 9998"
    and r: "handleFetch_results env startIso feed = Inr rs"
  shows "\<exists>ks. sorted_wrt (<) ks \<and> set ks \<subseteq> {0..<9}
    \<and> map (\<lambda>e. formatDate env (Value (date e))) rs
        = map (\<lambda>i. Inr (ymd_string ((next_day ^^ i) (y, m, d)))) ks"
proof -
  let ?M = "map_of (rev (List.map_filter (stored_pair env) feed))"
  let ?f = "\<lambda>i. ymd_string ((next_day ^^ i) (y, m, d))"
  note w = nineDatesFrom_consecutive [OF p s y]
  from r w have rs: "rs = List.map_filter ?M (map ?f [0..<9])"
    by (simp add: results_eq split: if_splits)
  have "map (\<lambda>e. formatDate env (Value (date e))) rs
        = map Inr (filter (\<lambda>w. ?M w \<noteq> None) (map ?f [0..<9]))"
    unfolding rs by (rule results_dates) (use lookup_entry in blast)
  also have "\<dots> = map (\<lambda>i. Inr (?f i)) (filter (\<lambda>i. ?M (?f i) \<noteq> None) [0..<9])"
    by (simp add: filter_map comp_def)
  finally have "map (\<lambda>e. formatDate env (Value (date e))) rs
        = map (\<lambda>i. Inr (?f i)) (filter (\<lambda>i. ?M (?f i) \<noteq> None) [0..<9])" .
  moreover have "sorted_wrt (<) (filter (\<lambda>i. ?M (?f i) \<noteq> None) [0..<9])"
    by (rule sorted_wrt_filter) simp
  moreover have "set (filter (\<lambda>i. ?M (?f i) \<noteq> None) [0..<9]) \<subseteq> {0..<9}" by auto
  ultimately show ?thesis by blast
qed

text \<open>
  C8. From the start date 2021-06-20 the window is 2021-06-20 to 2021-06-28, and a feed of
  the entries dated 2021-06-20, 2021-06-22 and 2021-07-01 gives exactly the first two, in
  that order. This holds on every host whose UTC offset is steady over that window.
\<close>

theorem example_2021_06_20:
  assumes s: "steady_window env ''2021-06-20''"
  shows "nineDatesFrom env ''2021-06-20'' =
     Inr [''2021-06-20'', ''2021-06-21'', ''2021-06-22'', ''2021-06-23'', ''2021-06-24'',
          ''2021-06-25'', ''2021-06-26'', ''2021-06-27'', ''2021-06-28'']
   \<and> handleFetch_results env ''2021-06-20''
         [JsonObject \<lparr>date = JStr ''2021-06-20'', rest = a\<rparr>,
          JsonObject \<lparr>date = JStr ''2021-06-22'', rest = b\<rparr>,
          JsonObject \<lparr>date = JStr ''2021-07-01'', rest = c\<rparr>]
       = Inr [\<lparr>date = JStr ''2021-06-20'', rest = a\<rparr>, \<lparr>date = JStr ''2021-06-22'', rest = b\<rparr>]"
proof -
  have p: "parse_ymd ''2021-06-20'' = Some (2021, 6, 20)"
    "parse_ymd ''2021-06-22'' = Some (2021, 6, 22)"
    "parse_ymd ''2021-07-01'' = Some (2021, 7, 1)"
    by code_simp+
  have u: "nineDatesFrom utc_host ''2021-06-20'' =
     Inr [''2021-06-20'', ''2021-06-21'', ''2021-06-22'', ''2021-06-23'', ''2021-06-24'',
          ''2021-06-25'', ''2021-06-26'', ''2021-06-27'', ''2021-06-28'']"
    by code_simp
  have w: "nineDatesFrom env ''2021-06-20'' =
     Inr [''2021-06-20'', ''2021-06-21'', ''2021-06-22'', ''2021-06-23'', ''2021-06-24'',
          ''2021-06-25'', ''2021-06-26'', ''2021-06-27'', ''2021-06-28'']"
    using nineDatesFrom_steady [OF p(1) s] u by simp
  have f: "formatDate env (Value (JStr ''2021-06-20'')) = Inr ''2021-06-20''"
    "formatDate env (Value (JStr ''2021-06-22'')) = Inr ''2021-06-22''"
    "formatDate env (Value (JStr ''2021-07-01'')) = Inr ''2021-07-01''"
    by (rule formatDate_ymd [OF p(1)] formatDate_ymd [OF p(2)] formatDate_ymd [OF p(3)])+
  have "handleFetch_results env ''2021-06-20''
         [JsonObject \<lparr>date = JStr ''2021-06-20'', rest = a\<rparr>,
          JsonObject \<lparr>date = JStr ''2021-06-22'', rest = b\<rparr>,
          JsonObject \<lparr>date = JStr ''2021-07-01'', rest = c\<rparr>]
       = Inr [\<lparr>date = JStr ''2021-06-20'', rest = a\<rparr>, \<lparr>date = JStr ''2021-06-22'', rest = b\<rparr>]"
    by (simp add: handleFetch_results_def f w)
  with w show ?thesis by simp
qed

theorem example_2021_06_20_witness:
  "steady_window utc_host ''2021-06-20''
   \<and> steady_window eastern_host ''2021-06-20''
   \<and> nineDatesFrom eastern_host ''2021-06-20'' =
     Inr [''2021-06-20'', ''2021-06-21'', ''2021-06-22'', ''2021-06-23'', ''2021-06-24'',
          ''2021-06-25'', ''2021-06-26'', ''2021-06-27'', ''2021-06-28'']
   \<and> handleFetch_results utc_host ''2021-06-20''
         [JsonObject \<lparr>date = JStr ''2021-06-20'', rest = ''a''\<rparr>,
          JsonObject \<lparr>date = JStr ''2021-06-22'', rest = ''b''\<rparr>,
          JsonObject \<lparr>date = JStr ''2021-07-01'', rest = ''c''\<rparr>]
       = Inr [\<lparr>date = JStr ''2021-06-20'', rest = ''a''\<rparr>, \<lparr>date = JStr ''2021-06-22'', rest = ''b''\<rparr>]"
proof -
  have h: "steady_window utc_host ''2021-06-20''" by code_simp
  have k: "steady_window eastern_host ''2021-06-20''" by code_simp
  from example_2021_06_20 [OF h, of "''a''" "''b''" "''c''"]
    example_2021_06_20 [OF k, of "''a''" "''b''" "''c''"] h k
  show ?thesis by (simp only: simp_thms)
qed

end
